theory Spec2Isabelle
  imports Complex_Main
begin

section \<open>Common data: Python errors, qubits, gates, circuits\<close>

text \<open>
  The notebooks build circuits by calling methods of a circuit object of the external
  quantum-circuit toolkit. A circuit is modelled by what those calls record: the quantum
  registers that were added to it (name and size), the names of its classical registers,
  and the sequence of gates appended so far. A register is the list of its qubits; a qubit
  is named by its register and its index in it.

  The toolkit validates what it is handed. It refuses a gate whose qubit arguments repeat
  and a register whose name the circuit already has (CircuitError): both are part of the
  methods below (\<open>append_checked\<close>, \<open>add_register\<close>). It also refuses a gate on a qubit
  that is not in a register of the circuit. The functions of the notebooks are written
  for qubit arguments taken from the circuit's own registers, and the gate methods below
  take that of their arguments for granted: \<open>in_circuit\<close> is the property, stated as a
  hypothesis where a theorem is about whether a call with arbitrary arguments raises, and
  tested where a function applies a gate to a qubit that is not among its arguments.
\<close>

datatype py_error =
  AssertionError | TypeError | AttributeError | IndexError | ValueError | NameError
  | CircuitError

datatype qubit = Qubit string nat

datatype gate =
  X_gate qubit
  | CX_gate qubit qubit
  | CCX_gate qubit qubit qubit
  | H_gate qubit
  | S_gate qubit
  | T_gate qubit
  | Tdg_gate qubit
  | Barrier "qubit list"
  | Barrier_all

record circuit =
  qregs :: "(string \<times> nat) list"
  cregs :: "string list"
  gates :: "gate list"

definition register_names :: "circuit \<Rightarrow> string list" where
  "register_names circ = map fst (qregs circ) @ cregs circ"

definition QuantumRegister :: "nat \<Rightarrow> string \<Rightarrow> qubit list" where
  "QuantumRegister sz name = map (Qubit name) [0..<sz]"

definition append_gate :: "gate \<Rightarrow> circuit \<Rightarrow> circuit" where
  "append_gate g circ = circ\<lparr>gates := gates circ @ [g]\<rparr>"

text \<open>A gate method of the circuit: the gate is appended unless its qubit arguments
  repeat.\<close>

fun gate_ok :: "gate \<Rightarrow> bool" where
  "gate_ok (CX_gate c t) = (c \<noteq> t)"
| "gate_ok (CCX_gate a b t) = (a \<noteq> b \<and> a \<noteq> t \<and> b \<noteq> t)"
| "gate_ok g = True"

definition append_checked :: "gate \<Rightarrow> circuit \<Rightarrow> py_error + circuit" where
  "append_checked g circ = (if gate_ok g then Inr (append_gate g circ) else Inl CircuitError)"

text \<open>A qubit of one of the circuit's registers.\<close>

fun in_circuit :: "circuit \<Rightarrow> qubit \<Rightarrow> bool" where
  "in_circuit circ (Qubit name i) = list_ex (\<lambda>r. fst r = name \<and> i < snd r) (qregs circ)"

text \<open>\<^verbatim>\<open>circ.add_register(reg)\<close>: the toolkit refuses a register whose name one of the
  circuit's registers, quantum or classical, already has.\<close>

definition add_register :: "string \<Rightarrow> nat \<Rightarrow> circuit \<Rightarrow> py_error + circuit" where
  "add_register name sz circ =
     (if name \<in> set (register_names circ) then Inl CircuitError
      else Inr (circ\<lparr>qregs := qregs circ @ [(name, sz)]\<rparr>))"

text \<open>Python indexing of a sequence: a negative index counts from the end, and an index out
  of range raises IndexError.\<close>

definition py_index :: "'a list \<Rightarrow> int \<Rightarrow> py_error + 'a" where
  "py_index xs i =
     (if 0 \<le> i \<and> i < int (length xs) then Inr (xs ! nat i)
      else if i < 0 \<and> - int (length xs) \<le> i then Inr (xs ! nat (int (length xs) + i))
      else Inl IndexError)"

text \<open>Sequencing of statements that may raise, and a \<^verbatim>\<open>for\<close> loop over a list whose body
  may raise: the first exception ends the loop.\<close>

definition and_then :: "py_error + 'a \<Rightarrow> ('a \<Rightarrow> py_error + 'b) \<Rightarrow> py_error + 'b" where
  "and_then r f = (case r of Inl e \<Rightarrow> Inl e | Inr v \<Rightarrow> f v)"

fun for_each :: "('s \<Rightarrow> 'a \<Rightarrow> py_error + 's) \<Rightarrow> 'a list \<Rightarrow> 's \<Rightarrow> py_error + 's" where
  "for_each body [] st = Inr st"
| "for_each body (x # xs) st = and_then (body st x) (for_each body xs)"

definition enumerate :: "'a list \<Rightarrow> (nat \<times> 'a) list" where
  "enumerate xs = zip [0..<length xs] xs"

text \<open>The gate methods called with arguments that are themselves indexing expressions
  (evaluated left to right before the method runs).\<close>

definition circ_x :: "circuit \<Rightarrow> py_error + qubit \<Rightarrow> py_error + circuit" where
  "circ_x circ q = and_then q (\<lambda>q'. append_checked (X_gate q') circ)"

definition circ_cx :: "circuit \<Rightarrow> py_error + qubit \<Rightarrow> py_error + qubit \<Rightarrow> py_error + circuit" where
  "circ_cx circ c t = and_then c (\<lambda>c'. and_then t (\<lambda>t'. append_checked (CX_gate c' t') circ))"

definition circ_ccx ::
  "circuit \<Rightarrow> py_error + qubit \<Rightarrow> py_error + qubit \<Rightarrow> py_error + qubit \<Rightarrow> py_error + circuit" where
  "circ_ccx circ a b t =
     and_then a (\<lambda>a'. and_then b (\<lambda>b'. and_then t (\<lambda>t'.
       append_checked (CCX_gate a' b' t') circ)))"

subsection \<open>What a gate sequence does to a computational-basis state\<close>

text \<open>
  A computational-basis state assigns a bit to every qubit. X, CX and CCX map basis states
  to basis states; a barrier does nothing; H, S, T and their inverses have no such
  description (\<open>None\<close>), and neither has a controlled gate whose qubit arguments repeat
  (no such gate is ever appended).
\<close>

type_synonym basis_state = "qubit \<Rightarrow> bool"

fun apply_gate :: "gate \<Rightarrow> basis_state \<Rightarrow> basis_state option" where
  "apply_gate (X_gate q) s = Some (s(q := \<not> s q))"
| "apply_gate (CX_gate c t) s = (if c = t then None else Some (s(t := (s t \<noteq> s c))))"
| "apply_gate (CCX_gate a b t) s =
     (if a = b \<or> a = t \<or> b = t then None else Some (s(t := (s t \<noteq> (s a \<and> s b)))))"
| "apply_gate (Barrier qs) s = Some s"
| "apply_gate Barrier_all s = Some s"
| "apply_gate (H_gate q) s = None"
| "apply_gate (S_gate q) s = None"
| "apply_gate (T_gate q) s = None"
| "apply_gate (Tdg_gate q) s = None"

fun run :: "gate list \<Rightarrow> basis_state \<Rightarrow> basis_state option" where
  "run [] s = Some s"
| "run (g # gs) s = (case apply_gate g s of None \<Rightarrow> None | Some s' \<Rightarrow> run gs s')"

fun is_cx_or_ccx :: "gate \<Rightarrow> bool" where
  "is_cx_or_ccx (CX_gate c t) = True"
| "is_cx_or_ccx (CCX_gate a b t) = True"
| "is_cx_or_ccx g = False"

fun is_ccx :: "gate \<Rightarrow> bool" where
  "is_ccx (CCX_gate a b t) = True"
| "is_ccx g = False"

section \<open>CHSH notebook: the measurement-basis-change helpers\<close>

text \<open>
  \<^verbatim>\<open>XW\<close>, \<^verbatim>\<open>ZW\<close> and \<^verbatim>\<open>ZV\<close> use only their parameters. \<^verbatim>\<open>XV\<close> reads the
  module-level name \<^verbatim>\<open>qreg\<close> (\<^verbatim>\<open>circ.h(qreg[0])\<close>), so the global binding of that
  name is an explicit argument of every helper here: \<open>None\<close> when the name is unbound
  (reading it raises NameError), otherwise the register it is bound to. The qubit
  \<^verbatim>\<open>qreg[0]\<close> is not one of the arguments, and nothing makes it a qubit of \<^verbatim>\<open>circ\<close>: when
  it is not, the toolkit refuses the gate (CircuitError).
\<close>

definition XW :: "qubit list option \<Rightarrow> circuit \<Rightarrow> qubit \<Rightarrow> qubit \<Rightarrow> py_error + circuit" where
  "XW qreg circ qbit0 qbit1 =
     Inr (append_gate (H_gate qbit1) (append_gate (T_gate qbit1) (append_gate (H_gate qbit1)
       (append_gate (S_gate qbit1) (append_gate (H_gate qbit0) circ)))))"

definition XV :: "qubit list option \<Rightarrow> circuit \<Rightarrow> qubit \<Rightarrow> qubit \<Rightarrow> py_error + circuit" where
  "XV qreg circ qbit0 qbit1 =
     (case qreg of
        None \<Rightarrow> Inl NameError
      | Some r \<Rightarrow>
         (case py_index r 0 of
            Inl e \<Rightarrow> Inl e
          | Inr q \<Rightarrow>
             (if in_circuit circ q then
                Inr (append_gate (H_gate qbit1) (append_gate (Tdg_gate qbit1)
                  (append_gate (H_gate qbit1) (append_gate (S_gate qbit1)
                    (append_gate (H_gate q) circ)))))
              else Inl CircuitError)))"

definition ZW :: "qubit list option \<Rightarrow> circuit \<Rightarrow> qubit \<Rightarrow> qubit \<Rightarrow> py_error + circuit" where
  "ZW qreg circ qbit0 qbit1 =
     Inr (append_gate (H_gate qbit1) (append_gate (T_gate qbit1) (append_gate (H_gate qbit1)
       (append_gate (S_gate qbit1) circ))))"

definition ZV :: "qubit list option \<Rightarrow> circuit \<Rightarrow> qubit \<Rightarrow> qubit \<Rightarrow> py_error + circuit" where
  "ZV qreg circ qbit0 qbit1 =
     Inr (append_gate (H_gate qbit1) (append_gate (Tdg_gate qbit1) (append_gate (H_gate qbit1)
       (append_gate (S_gate qbit1) circ))))"

text \<open>The circuit and register that \<^verbatim>\<open>create_cat\<close> returns.\<close>

definition create_cat :: "circuit \<times> qubit list" where
  "create_cat =
     (let q = QuantumRegister 2 ''q'';
          circ = \<lparr>qregs = [(''q'', 2)], cregs = [], gates = []\<rparr>
      in (append_gate (CX_gate (q ! 0) (q ! 1)) (append_gate (H_gate (q ! 0)) circ), q))"

section \<open>Schroedinger notebook: the discretized Hamiltonian and \<^verbatim>\<open>evolve\<close>\<close>

text \<open>
  The notebook computes with floating-point arrays. The model uses exact real and complex
  numbers: the claims below concern which entries of the matrix are which quantity and
  which time a phase is evaluated at, not rounding. \<^verbatim>\<open>np.linspace(0, L, num=N)\<close> gives
  \<open>N\<close> equally spaced samples from \<open>0\<close> to \<open>L\<close>; \<^verbatim>\<open>np.eye(N, k)\<close> has ones on the \<open>k\<close>-th
  diagonal; a vector times a matrix multiplies column \<open>j\<close> by entry \<open>j\<close> (broadcasting).
\<close>

definition linspace :: "real \<Rightarrow> real \<Rightarrow> nat \<Rightarrow> real list" where
  "linspace start stop num =
     (if num = 1 then [start]
      else map (\<lambda>i. start + real i * ((stop - start) / real (num - 1))) [0..<num])"

definition grid_X :: "nat \<Rightarrow> real \<Rightarrow> real list" where
  "grid_X N L = map (\<lambda>x. x - L / 2) (linspace 0 L N)"

definition grid_spacing :: "real list \<Rightarrow> py_error + real" where
  "grid_spacing X =
     (case py_index X 1 of
        Inl e \<Rightarrow> Inl e
      | Inr x1 \<Rightarrow> (case py_index X 0 of Inl e \<Rightarrow> Inl e | Inr x0 \<Rightarrow> Inr (x1 - x0)))"

definition hopping :: "real \<Rightarrow> real \<Rightarrow> real \<Rightarrow> real" where
  "hopping eta m a = - (eta ^ 2) / (2 * m * a ^ 2)"

definition onsite :: "real \<Rightarrow> real \<Rightarrow> (real \<Rightarrow> real) \<Rightarrow> real list \<Rightarrow> real list" where
  "onsite t q V X = map (\<lambda>x. -2 * t + q * V x) X"

definition eye :: "nat \<Rightarrow> int \<Rightarrow> real list list" where
  "eye N k = map (\<lambda>i. map (\<lambda>j. if int j = int i + k then 1 else 0) [0..<N]) [0..<N]"

definition scalar_times :: "real \<Rightarrow> real list list \<Rightarrow> real list list" where
  "scalar_times c M = map (map (\<lambda>x. c * x)) M"

definition row_times :: "real list \<Rightarrow> real list list \<Rightarrow> real list list" where
  "row_times v M = map (\<lambda>row. map2 (\<lambda>x y. x * y) v row) M"

definition matrix_plus :: "real list list \<Rightarrow> real list list \<Rightarrow> real list list" where
  "matrix_plus A B = map2 (map2 (\<lambda>x y. x + y)) A B"

definition hamiltonian :: "nat \<Rightarrow> real \<Rightarrow> real list \<Rightarrow> real list list" where
  "hamiltonian N t eps =
     matrix_plus (matrix_plus (scalar_times t (eye N (-1))) (row_times eps (eye N 0)))
       (scalar_times t (eye N 1))"

definition V_free :: "real \<Rightarrow> real" where
  "V_free x = 0 * x"

definition discretized_H ::
  "nat \<Rightarrow> real \<Rightarrow> real \<Rightarrow> real \<Rightarrow> real \<Rightarrow> (real \<Rightarrow> real) \<Rightarrow> py_error + real list list" where
  "discretized_H N L eta m q V =
     (case grid_spacing (grid_X N L) of
        Inl e \<Rightarrow> Inl e
      | Inr a \<Rightarrow>
         Inr (hamiltonian N (hopping eta m a)
                (onsite (hopping eta m a) q V (grid_X N L))))"

text \<open>
  \<^verbatim>\<open>evolve\<close> is a generator. Its local state is the time \<^verbatim>\<open>t\<close> and the counter \<^verbatim>\<open>cnt\<close>;
  \<open>evolve_next\<close> is one turn of its \<^verbatim>\<open>while\<close> loop up to the \<^verbatim>\<open>yield\<close> (\<open>None\<close> when the
  loop ends), and \<open>evolve_take k\<close> collects what the first \<open>k\<close> calls of \<^verbatim>\<open>next\<close> yield. The
  first statement, \<^verbatim>\<open>np.arange(num_step)*timestep\<close>, raises TypeError when \<^verbatim>\<open>num_step\<close> is
  \<^verbatim>\<open>None\<close>; its value is never used. \<^verbatim>\<open>eta\<close> is a module-level constant of the notebook and is
  a parameter here.
\<close>

record evolve_state =
  ev_t :: real
  ev_cnt :: nat

definition evolve_start :: evolve_state where
  "evolve_start = \<lparr>ev_t = 0, ev_cnt = 0\<rparr>"

definition evolve_next ::
  "real \<Rightarrow> complex list \<Rightarrow> real \<Rightarrow> real \<Rightarrow> nat option \<Rightarrow> evolve_state
     \<Rightarrow> ((real \<times> complex list) \<times> evolve_state) option" where
  "evolve_next eta psi E timestep num_step st =
     (if num_step = None \<or> ev_cnt st < the num_step then
        (let phase = exp (- \<i> * complex_of_real E / complex_of_real eta * complex_of_real (ev_t st));
             cnt' = ev_cnt st + 1;
             t' = ev_t st + timestep
         in Some ((t', map (\<lambda>z. phase * z) psi), \<lparr>ev_t = t', ev_cnt = cnt'\<rparr>))
      else None)"

fun evolve_take ::
  "nat \<Rightarrow> real \<Rightarrow> complex list \<Rightarrow> real \<Rightarrow> real \<Rightarrow> nat option \<Rightarrow> evolve_state
     \<Rightarrow> (real \<times> complex list) list" where
  "evolve_take 0 eta psi E timestep num_step st = []"
| "evolve_take (Suc k) eta psi E timestep num_step st =
     (case evolve_next eta psi E timestep num_step st of
        None \<Rightarrow> []
      | Some (y, st') \<Rightarrow> y # evolve_take k eta psi E timestep num_step st')"

definition evolve ::
  "real \<Rightarrow> complex list \<Rightarrow> real \<Rightarrow> real \<Rightarrow> nat option \<Rightarrow> nat
     \<Rightarrow> py_error + (real \<times> complex list) list" where
  "evolve eta psi E timestep num_step fuel =
     (case num_step of
        None \<Rightarrow> Inl TypeError
      | Some n \<Rightarrow> Inr (evolve_take fuel eta psi E timestep num_step evolve_start))"

section \<open>Grover notebook: \<^verbatim>\<open>apply_oracle\<close>\<close>

text \<open>
  An expression is a list of clauses, a clause a list of signed literals (Python integers):
  \<open>i + 1\<close> stands for the variable \<open>x\<^sub>i\<close> and \<open>- (i + 1)\<close> for its negation. The registers
  \<^verbatim>\<open>f_in\<close>, \<^verbatim>\<open>f_out\<close> and \<^verbatim>\<open>aux\<close> are lists of qubits. The body of the loop over the clauses
  occurs twice in the source, word for word (the second time to uncompute); it is
  \<open>clause_block\<close>, with \<open>literal_step\<close> the body of its first inner loop and \<open>unflip_step\<close>
  the body of its second. The parameter \<^verbatim>\<open>n\<close> is not used by the source.
\<close>

definition literal_step :: "qubit list \<Rightarrow> qubit list \<Rightarrow> nat \<Rightarrow> circuit \<Rightarrow> int \<Rightarrow> py_error + circuit" where
  "literal_step f_in aux k circ literal =
     (if literal > 0 then circ_cx circ (py_index f_in (literal - 1)) (py_index aux (int k))
      else and_then (circ_x circ (py_index f_in (- literal - 1)))
             (\<lambda>circ1. circ_cx circ1 (py_index f_in (- literal - 1)) (py_index aux (int k))))"

definition unflip_step :: "qubit list \<Rightarrow> circuit \<Rightarrow> int \<Rightarrow> py_error + circuit" where
  "unflip_step f_in circ literal =
     (if literal < 0 then circ_x circ (py_index f_in (- literal - 1)) else Inr circ)"

definition clause_block ::
  "qubit list \<Rightarrow> qubit list \<Rightarrow> nat \<Rightarrow> circuit \<Rightarrow> nat \<times> int list \<Rightarrow> py_error + circuit" where
  "clause_block f_in aux num_clauses circ kc =
     (case kc of (k, clause) \<Rightarrow>
        and_then (for_each (literal_step f_in aux k) clause circ) (\<lambda>c1.
        and_then (circ_ccx (append_gate (Barrier f_in) c1)
                    (py_index f_in 0) (py_index f_in 1) (py_index aux (int num_clauses))) (\<lambda>c2.
        and_then (circ_ccx c2 (py_index f_in 2) (py_index aux (int num_clauses)) (py_index aux (int k))) (\<lambda>c3.
        and_then (circ_ccx (append_gate (Barrier f_in) c3)
                    (py_index f_in 0) (py_index f_in 1) (py_index aux (int num_clauses))) (\<lambda>c4.
        and_then (for_each (unflip_step f_in) clause c4) (\<lambda>c5.
        Inr (append_gate Barrier_all c5)))))))"

definition apply_oracle ::
  "circuit \<Rightarrow> qubit list \<Rightarrow> qubit list \<Rightarrow> qubit list \<Rightarrow> nat \<Rightarrow> int list list
     \<Rightarrow> py_error + circuit" where
  "apply_oracle circ f_in f_out aux n expression =
     (let num_clauses = length expression in
      and_then (for_each (clause_block f_in aux num_clauses) (enumerate expression) circ) (\<lambda>c1.
      and_then
        (if num_clauses = 1 then circ_cx c1 (py_index aux 0) (py_index f_out 0)
         else if num_clauses = 2 then circ_ccx c1 (py_index aux 0) (py_index aux 1) (py_index f_out 0)
         else if num_clauses = 3 then
           and_then (circ_ccx c1 (py_index aux 0) (py_index aux 1) (py_index aux (int num_clauses))) (\<lambda>d1.
           and_then (circ_ccx d1 (py_index aux 2) (py_index aux (int num_clauses)) (py_index f_out 0)) (\<lambda>d2.
           circ_ccx d2 (py_index aux 0) (py_index aux 1) (py_index aux (int num_clauses))))
         else Inl ValueError) (\<lambda>c2.
      for_each (clause_block f_in aux num_clauses) (enumerate expression)
        (append_gate Barrier_all c2))))"

subsection \<open>The textbook value of the transformed expression\<close>

text \<open>
  What the notebook's text asks of the oracle, in its own words: a clause
  \<open>c = l\<^sub>1 \<or> l\<^sub>2 \<or> l\<^sub>3\<close> is transformed to
  \<open>g = l\<^sub>1 \<oplus> l\<^sub>2 \<oplus> l\<^sub>3 \<oplus> (l\<^sub>1 \<and> l\<^sub>2 \<and> l\<^sub>3)\<close>, and \<open>E'\<close> is the conjunction of the \<open>g\<close>. The
  variable \<open>x\<^sub>i\<close> is read from \<^verbatim>\<open>f_in[i]\<close>.
\<close>

definition valid_literal :: "qubit list \<Rightarrow> int \<Rightarrow> bool" where
  "valid_literal f_in l = (l \<noteq> 0 \<and> \<bar>l\<bar> \<le> int (length f_in))"

text \<open>A literal whose index expression (\<^verbatim>\<open>f_in[literal-1]\<close> for a positive literal,
  \<^verbatim>\<open>f_in[-literal-1]\<close> otherwise) is within a non-empty \<^verbatim>\<open>f_in\<close>; the literal 0 is one, it
  indexes \<^verbatim>\<open>f_in[-1]\<close>.\<close>

definition indexable_literal :: "qubit list \<Rightarrow> int \<Rightarrow> bool" where
  "indexable_literal f_in l = (\<bar>l\<bar> \<le> int (length f_in))"

definition lit_qubit :: "qubit list \<Rightarrow> int \<Rightarrow> qubit" where
  "lit_qubit f_in l = f_in ! nat (\<bar>l\<bar> - 1)"

definition textbook_literal :: "qubit list \<Rightarrow> basis_state \<Rightarrow> int \<Rightarrow> bool" where
  "textbook_literal f_in s l = (if l > 0 then s (lit_qubit f_in l) else \<not> s (lit_qubit f_in l))"

fun xor_all :: "bool list \<Rightarrow> bool" where
  "xor_all [] = False"
| "xor_all (b # bs) = (b \<noteq> xor_all bs)"

definition textbook_g :: "qubit list \<Rightarrow> basis_state \<Rightarrow> int list \<Rightarrow> bool" where
  "textbook_g f_in s clause =
     (xor_all (map (textbook_literal f_in s) clause)
        \<noteq> list_all (textbook_literal f_in s) clause)"

definition textbook_E' :: "qubit list \<Rightarrow> basis_state \<Rightarrow> int list list \<Rightarrow> bool" where
  "textbook_E' f_in s expression = list_all (textbook_g f_in s) expression"

text \<open>A clause that names each of \<open>x\<^sub>0\<close>, \<open>x\<^sub>1\<close>, \<open>x\<^sub>2\<close> exactly once.\<close>

definition names_x0_x1_x2 :: "int list \<Rightarrow> bool" where
  "names_x0_x1_x2 clause = (length clause = 3 \<and> set (map abs clause) = {1, 2, 3})"

section \<open>Grover notebook: \<^verbatim>\<open>CnX\<close>\<close>

text \<open>
  \<^verbatim>\<open>ctrls\<close> and \<^verbatim>\<open>clean_aux\<close> are Python sequences of qubits: a \<^verbatim>\<open>list\<close> (\<open>PyList\<close>), which
  has \<^verbatim>\<open>pop\<close> and \<^verbatim>\<open>append\<close> and is mutated in place, or any other sized sequence
  (\<open>PySeq\<close>: a tuple, a register), which is not; \<^verbatim>\<open>clean_aux\<close> may also be \<^verbatim>\<open>None\<close>. The
  target is a qubit or a register (of at least one qubit). The two base cases try the gate
  on \<^verbatim>\<open>target[0]\<close> and, in the \<^verbatim>\<open>except\<close> branch, call the same method on \<^verbatim>\<open>target\<close>
  itself (\<open>cx_target\<close>, \<open>ccx_target\<close>). For a qubit, \<^verbatim>\<open>target[0]\<close> raises TypeError and the
  \<^verbatim>\<open>except\<close> branch is the call that counts. For a register, \<^verbatim>\<open>target[0]\<close> is its first
  qubit; when the toolkit refuses that gate because qubit arguments repeat, the \<^verbatim>\<open>except\<close>
  branch hands it the register, and the first gate it then makes of the register is the
  same one and is refused again, before anything is appended.

  In the recursive case the two controls and the ancilla have been popped when the first
  \<^verbatim>\<open>ccx\<close> is called: if it is refused, the caller's lists stay popped.

  The result of a call records the exception raised (if any), the circuit, what was
  printed (each warning as the pair of numbers it reports: got, need), and the values the
  caller's \<^verbatim>\<open>ctrls\<close> and \<^verbatim>\<open>clean_aux\<close> objects have when the call ends. \<open>select_ancillas\<close> is
  the block that chooses the local list \<^verbatim>\<open>aux\<close>; its last component tells whether that
  list is the caller's own list object (so that \<^verbatim>\<open>aux.pop()\<close> mutates it).
  \<^verbatim>\<open>len(aux)\<close> inside the warning raises TypeError when \<^verbatim>\<open>aux\<close> is \<^verbatim>\<open>None\<close>.
\<close>

datatype pyseq = PyList "qubit list" | PySeq "qubit list"

fun items :: "pyseq \<Rightarrow> qubit list" where
  "items (PyList qs) = qs"
| "items (PySeq qs) = qs"

fun is_list :: "pyseq \<Rightarrow> bool" where
  "is_list (PyList qs) = True"
| "is_list (PySeq qs) = False"

datatype target = TQubit qubit | TReg qubit "qubit list"

fun target_qubit :: "target \<Rightarrow> qubit" where
  "target_qubit (TQubit q) = q"
| "target_qubit (TReg q qs) = q"

definition target_item :: "target \<Rightarrow> py_error + qubit" where
  "target_item target = (case target of TQubit q \<Rightarrow> Inl TypeError | TReg q qs \<Rightarrow> Inr q)"

definition cx_target :: "circuit \<Rightarrow> qubit \<Rightarrow> target \<Rightarrow> py_error + circuit" where
  "cx_target circ c target =
     (case and_then (target_item target) (\<lambda>t. append_checked (CX_gate c t) circ) of
        Inr circ1 \<Rightarrow> Inr circ1
      | Inl e \<Rightarrow> append_checked (CX_gate c (target_qubit target)) circ)"

definition ccx_target :: "circuit \<Rightarrow> qubit \<Rightarrow> qubit \<Rightarrow> target \<Rightarrow> py_error + circuit" where
  "ccx_target circ a b target =
     (case and_then (target_item target) (\<lambda>t. append_checked (CCX_gate a b t) circ) of
        Inr circ1 \<Rightarrow> Inr circ1
      | Inl e \<Rightarrow> append_checked (CCX_gate a b (target_qubit target)) circ)"

record cnx_result =
  raised :: "py_error option"
  circ_after :: circuit
  stdout_after :: "(nat \<times> nat) list"
  ctrls_after :: pyseq
  aux_after :: "pyseq option"

definition finish ::
  "py_error option \<Rightarrow> circuit \<Rightarrow> (nat \<times> nat) list \<Rightarrow> pyseq \<Rightarrow> pyseq option \<Rightarrow> cnx_result" where
  "finish e circ out ctrls clean_aux =
     \<lparr>raised = e, circ_after = circ, stdout_after = out, ctrls_after = ctrls,
      aux_after = clean_aux\<rparr>"

definition select_ancillas ::
  "circuit \<Rightarrow> (nat \<times> nat) list \<Rightarrow> nat \<Rightarrow> pyseq option
     \<Rightarrow> (py_error \<times> (nat \<times> nat) list) + (circuit \<times> (nat \<times> nat) list \<times> qubit list \<times> bool)" where
  "select_ancillas circ out need clean_aux =
     (case clean_aux of
        None \<Rightarrow> Inl (TypeError, out)
      | Some given \<Rightarrow>
         (if length (items given) \<noteq> need then
            (case add_register ''aux'' need circ of
               Inl e \<Rightarrow> Inl (e, out @ [(length (items given), need)])
             | Inr circ1 \<Rightarrow>
                 Inr (circ1, out @ [(length (items given), need)],
                      QuantumRegister need ''aux'', False))
          else Inr (circ, out, items given, is_list given)))"

function CnX ::
  "circuit \<Rightarrow> (nat \<times> nat) list \<Rightarrow> pyseq \<Rightarrow> target \<Rightarrow> pyseq option \<Rightarrow> cnx_result" where
  "CnX circ out ctrls target clean_aux =
     (if length (items ctrls) < 1 then finish (Some AssertionError) circ out ctrls clean_aux
      else if length (items ctrls) = 1 then
        (case cx_target circ (items ctrls ! 0) target of
           Inr circ1 \<Rightarrow> finish None circ1 out ctrls clean_aux
         | Inl e \<Rightarrow> finish (Some e) circ out ctrls clean_aux)
      else if length (items ctrls) = 2 then
        (case ccx_target circ (items ctrls ! 0) (items ctrls ! 1) target of
           Inr circ1 \<Rightarrow> finish None circ1 out ctrls clean_aux
         | Inl e \<Rightarrow> finish (Some e) circ out ctrls clean_aux)
      else
        (case select_ancillas circ out (length (items ctrls) - 2) clean_aux of
           Inl (e, out1) \<Rightarrow> finish (Some e) circ out1 ctrls clean_aux
         | Inr (circ1, out1, aux, shared) \<Rightarrow>
            (case ctrls of
               PySeq cs \<Rightarrow> finish (Some AttributeError) circ1 out1 ctrls clean_aux
             | PyList cs \<Rightarrow>
                (case append_checked
                        (CCX_gate (last cs) (last (butlast cs)) (last aux)) circ1 of
                   Inl e \<Rightarrow>
                     finish (Some e) circ1 out1 (PyList (butlast (butlast cs)))
                       (if shared then Some (PyList (butlast aux)) else clean_aux)
                 | Inr circ2 \<Rightarrow>
                    (let r = CnX circ2 out1 (PyList (butlast (butlast cs) @ [last aux])) target
                               (Some (PyList (butlast aux)));
                         r' = r\<lparr>aux_after := (if shared then aux_after r else clean_aux)\<rparr>
                     in (case raised r of
                           Some e \<Rightarrow> r'
                         | None \<Rightarrow>
                            (case append_checked
                                    (CCX_gate (last cs) (last (butlast cs)) (last aux))
                                    (circ_after r) of
                               Inl e \<Rightarrow> r'\<lparr>raised := Some e\<rparr>
                             | Inr circ3 \<Rightarrow> r'\<lparr>circ_after := circ3\<rparr>)))))))"
  by pat_completeness auto
termination
  by (relation "measure (\<lambda>(circ, out, ctrls, target, clean_aux). length (items ctrls))")
    (auto simp: neq_Nil_conv)

section \<open>Auxiliary definitions for the proofs\<close>

text \<open>
  The gates that the blocks of \<^verbatim>\<open>apply_oracle\<close> append when no indexing fails, as plain
  lists, and the concrete circuits, registers and states at which the theorems are
  instantiated.
\<close>

definition lit_gates :: "qubit list \<Rightarrow> qubit \<Rightarrow> int \<Rightarrow> gate list" where
  "lit_gates f_in ak l =
     (if l > 0 then [CX_gate (lit_qubit f_in l) ak]
      else [X_gate (lit_qubit f_in l), CX_gate (lit_qubit f_in l) ak])"

definition unflip_gates :: "qubit list \<Rightarrow> int \<Rightarrow> gate list" where
  "unflip_gates f_in l = (if l < 0 then [X_gate (lit_qubit f_in l)] else [])"

definition block_gates :: "qubit list \<Rightarrow> qubit list \<Rightarrow> nat \<Rightarrow> nat \<times> int list \<Rightarrow> gate list" where
  "block_gates f_in aux nc kc =
     concat (map (lit_gates f_in (aux ! fst kc)) (snd kc))
     @ [Barrier f_in, CCX_gate (f_in ! 0) (f_in ! 1) (aux ! nc),
        CCX_gate (f_in ! 2) (aux ! nc) (aux ! fst kc), Barrier f_in,
        CCX_gate (f_in ! 0) (f_in ! 1) (aux ! nc)]
     @ concat (map (unflip_gates f_in) (snd kc)) @ [Barrier_all]"

definition more_gates :: "circuit \<Rightarrow> gate list \<Rightarrow> circuit" where
  "more_gates circ G = circ\<lparr>gates := gates circ @ G\<rparr>"

definition final_gates :: "qubit list \<Rightarrow> qubit list \<Rightarrow> nat \<Rightarrow> gate list" where
  "final_gates f_out aux nc =
     (if nc = 1 then [CX_gate (aux ! 0) (f_out ! 0)]
      else if nc = 2 then [CCX_gate (aux ! 0) (aux ! 1) (f_out ! 0)]
      else [CCX_gate (aux ! 0) (aux ! 1) (aux ! nc), CCX_gate (aux ! 2) (aux ! nc) (f_out ! 0),
            CCX_gate (aux ! 0) (aux ! 1) (aux ! nc)])"

definition demo_circuit :: circuit where
  "demo_circuit = \<lparr>qregs = [(''q'', 3), (''t'', 1), (''a'', 2)], cregs = [], gates = []\<rparr>"

text \<open>The same registers in a circuit that already has a register named \<^verbatim>\<open>aux\<close>.\<close>

definition aux_circuit :: circuit where
  "aux_circuit = \<lparr>qregs = [(''q'', 3), (''t'', 1), (''aux'', 2)], cregs = [], gates = []\<rparr>"

definition demo_ctrls :: "qubit list" where
  "demo_ctrls = [Qubit ''q'' 0, Qubit ''q'' 1, Qubit ''q'' 2]"

definition demo_state :: "qubit \<Rightarrow> bool" where
  "demo_state q = (case q of Qubit name i \<Rightarrow> name = ''q'')"

definition oracle_circuit :: "nat \<Rightarrow> circuit" where
  "oracle_circuit num_clauses =
     \<lparr>qregs = [(''x'', 3), (''out'', 1), (''aux'', num_clauses + 1)], cregs = [], gates = []\<rparr>"

subsection \<open>What the gates of one clause compute\<close>

text \<open>
  The literal loop of a clause flips \<^verbatim>\<open>f_in\<close> qubits (one X per non-positive literal) and
  adds, literal by literal, the bit it reads at that moment to \<^verbatim>\<open>aux[k]\<close>. \<open>flip_step\<close> is
  the effect of one literal on \<^verbatim>\<open>f_in\<close>, \<open>flipped\<close> the effect of the whole clause, and
  \<open>xor_reads\<close> the sum (mod 2) of the bits read. \<open>code_g\<close> is the value by which the gates
  of the clause change \<^verbatim>\<open>aux[k]\<close>: that sum, plus the conjunction of \<^verbatim>\<open>f_in[0]\<close>,
  \<^verbatim>\<open>f_in[1]\<close>, \<^verbatim>\<open>f_in[2]\<close> as they are after the flips. \<open>block_step\<close> is the effect of one
  clause block on a basis state, \<open>wf_blocks\<close> says that the blocks of a list write to
  qubits outside \<^verbatim>\<open>f_in\<close> and have valid literals, and \<open>oracle_flips\<close> tells whether the gates
  appended by \<^verbatim>\<open>apply_oracle\<close> flip \<^verbatim>\<open>f_out[0]\<close> on a basis state.
\<close>

definition flip_step :: "qubit list \<Rightarrow> int \<Rightarrow> basis_state \<Rightarrow> basis_state" where
  "flip_step f_in l s = (if l > 0 then s else s(lit_qubit f_in l := \<not> s (lit_qubit f_in l)))"

fun flipped :: "qubit list \<Rightarrow> int list \<Rightarrow> basis_state \<Rightarrow> basis_state" where
  "flipped f_in [] s = s"
| "flipped f_in (l # ls) s = flipped f_in ls (flip_step f_in l s)"

fun xor_reads :: "qubit list \<Rightarrow> int list \<Rightarrow> basis_state \<Rightarrow> bool" where
  "xor_reads f_in [] s = False"
| "xor_reads f_in (l # ls) s =
     (flip_step f_in l s (lit_qubit f_in l) \<noteq> xor_reads f_in ls (flip_step f_in l s))"

definition code_g :: "qubit list \<Rightarrow> basis_state \<Rightarrow> int list \<Rightarrow> bool" where
  "code_g f_in s clause =
     (xor_reads f_in clause s
        \<noteq> (flipped f_in clause s (f_in ! 0) \<and> flipped f_in clause s (f_in ! 1)
             \<and> flipped f_in clause s (f_in ! 2)))"

definition block_step :: "qubit list \<Rightarrow> qubit list \<Rightarrow> nat \<times> int list \<Rightarrow> basis_state \<Rightarrow> basis_state" where
  "block_step f_in aux kc u = u(aux ! fst kc := (u (aux ! fst kc) \<noteq> code_g f_in u (snd kc)))"

definition wf_blocks :: "qubit list \<Rightarrow> qubit list \<Rightarrow> (nat \<times> int list) list \<Rightarrow> bool" where
  "wf_blocks f_in aux kcs =
     list_all (\<lambda>kc. aux ! fst kc \<notin> set f_in \<and> list_all (valid_literal f_in) (snd kc)) kcs"

definition oracle_flips ::
  "circuit \<Rightarrow> qubit list \<Rightarrow> qubit list \<Rightarrow> qubit list \<Rightarrow> nat \<Rightarrow> int list list \<Rightarrow> basis_state
     \<Rightarrow> bool option" where
  "oracle_flips circ f_in f_out aux n expression s =
     (case apply_oracle circ f_in f_out aux n expression of
        Inl e \<Rightarrow> None
      | Inr circ' \<Rightarrow>
         (case run (drop (length (gates circ)) (gates circ')) s of
            None \<Rightarrow> None
          | Some s' \<Rightarrow> Some (s' (f_out ! 0) \<noteq> s (f_out ! 0))))"

definition state_110 :: basis_state where
  "state_110 q = (q = Qubit ''x'' 0 \<or> q = Qubit ''x'' 1)"

definition state_101 :: basis_state where
  "state_101 q = (q = Qubit ''x'' 0 \<or> q = Qubit ''x'' 2)"

text \<open>Four variables: the circuit, and the input \<open>x\<^sub>0 = 1, x\<^sub>1 = 1, x\<^sub>2 = 0, x\<^sub>3 = 1\<close>.\<close>

definition oracle_circuit_4 :: circuit where
  "oracle_circuit_4 = \<lparr>qregs = [(''x'', 4), (''out'', 1), (''aux'', 2)], cregs = [], gates = []\<rparr>"

definition state_1101 :: basis_state where
  "state_1101 q = (q = Qubit ''x'' 0 \<or> q = Qubit ''x'' 1 \<or> q = Qubit ''x'' 3)"

section \<open>CHSH notebook: properties\<close>

lemma XW_ignores_global: "XW g1 circ a b = XW g2 circ a b"
  by (simp add: XW_def)

lemma ZW_ignores_global: "ZW g1 circ a b = ZW g2 circ a b"
  by (simp add: ZW_def)

lemma ZV_ignores_global: "ZV g1 circ a b = ZV g2 circ a b"
  by (simp add: ZV_def)

lemma QuantumRegister_2: "QuantumRegister 2 name = [Qubit name 0, Qubit name 1]"
proof -
  have "[0..<2] = [0, Suc 0]" by (simp add: upt_rec)
  then show ?thesis by (simp add: QuantumRegister_def)
qed

text \<open>
  Claim C7 (fails for \<^verbatim>\<open>XV\<close>): each helper is supposed to append gates determined by its
  arguments alone. Two calls of \<^verbatim>\<open>XV\<close> with the same circuit and the same two qubits end
  differently when the global \<^verbatim>\<open>qreg\<close> is bound to different registers. Bound to the
  circuit's register \<^verbatim>\<open>q\<close>, the first Hadamard lands on \<^verbatim>\<open>qreg[0] = q[0]\<close>, not on
  \<^verbatim>\<open>qbit0 = q[1]\<close>; bound to a register that is not in the circuit, that gate is
  refused; with \<^verbatim>\<open>qreg\<close> unbound the call raises NameError. The sibling \<^verbatim>\<open>XW\<close> applies
  that Hadamard to \<^verbatim>\<open>qbit0\<close>.
\<close>

theorem XV_depends_on_global_qreg:
  "XV (Some (QuantumRegister 2 ''q'')) (fst create_cat) (Qubit ''q'' 1) (Qubit ''q'' 0)
     \<noteq> XV (Some (QuantumRegister 2 ''r'')) (fst create_cat) (Qubit ''q'' 1) (Qubit ''q'' 0)
   \<and> (\<exists>c. XV (Some (QuantumRegister 2 ''q'')) (fst create_cat) (Qubit ''q'' 1) (Qubit ''q'' 0) = Inr c
          \<and> gates c = gates (fst create_cat) @
               [H_gate (Qubit ''q'' 0), S_gate (Qubit ''q'' 0), H_gate (Qubit ''q'' 0),
                Tdg_gate (Qubit ''q'' 0), H_gate (Qubit ''q'' 0)])
   \<and> XV None (fst create_cat) (Qubit ''q'' 1) (Qubit ''q'' 0) = Inl NameError"
  by (simp add: XV_def py_index_def QuantumRegister_2 append_gate_def create_cat_def)

section \<open>Schroedinger notebook: properties\<close>

lemma length_grid_X: "length (grid_X N L) = N"
  by (simp add: grid_X_def linspace_def)

lemma grid_spacing_ok:
  assumes "2 \<le> N"
  shows "grid_spacing (grid_X N L) = Inr (grid_X N L ! 1 - grid_X N L ! 0)"
  using assms by (simp add: grid_spacing_def py_index_def length_grid_X)

lemma eye_nth: "i < N \<Longrightarrow> j < N \<Longrightarrow> eye N k ! i ! j = (if int j = int i + k then 1 else 0)"
  by (simp add: eye_def)

lemma length_eye: "length (eye N k) = N"
  by (simp add: eye_def)

lemma length_eye_row: "i < N \<Longrightarrow> length (eye N k ! i) = N"
  by (simp add: eye_def)

lemma hamiltonian_length: "length (hamiltonian N t eps) = N"
  by (simp add: hamiltonian_def matrix_plus_def scalar_times_def row_times_def length_eye)

lemma hamiltonian_row_length:
  "i < N \<Longrightarrow> length eps = N \<Longrightarrow> length (hamiltonian N t eps ! i) = N"
  by (simp add: hamiltonian_def matrix_plus_def scalar_times_def row_times_def length_eye
      length_eye_row)

lemma hamiltonian_nth:
  assumes "i < N" "j < N" "length eps = N"
  shows "hamiltonian N t eps ! i ! j =
           (if j = i then eps ! i else if j + 1 = i \<or> j = i + 1 then t else 0)"
  using assms
  by (auto simp add: hamiltonian_def matrix_plus_def scalar_times_def row_times_def length_eye
      length_eye_row eye_nth)

text \<open>
  Claim C6: the discretized Hamiltonian \<open>H\<close> is an \<open>N\<close>-by-\<open>N\<close> tridiagonal matrix: its
  diagonal entry \<open>H[i][i]\<close> is \<open>eps[i] = -2*t + q*V(X[i])\<close>, the entries next to the diagonal
  are the hopping \<open>t\<close>, and every other entry is zero. (\<open>L\<close> and \<open>m\<close> are non-zero, so that
  the division defining \<open>t\<close> is a division by a non-zero number.)
\<close>

theorem discretized_H_tridiagonal:
  assumes "2 \<le> N" and "i < N" and "j < N" and "L \<noteq> 0" and "m \<noteq> 0"
  shows "\<exists>a H. grid_spacing (grid_X N L) = Inr a
           \<and> discretized_H N L eta m q V = Inr H
           \<and> length H = N \<and> length (H ! i) = N
           \<and> onsite (hopping eta m a) q V (grid_X N L) ! i
                = -2 * hopping eta m a + q * V (grid_X N L ! i)
           \<and> H ! i ! j =
               (if j = i then onsite (hopping eta m a) q V (grid_X N L) ! i
                else if j + 1 = i \<or> j = i + 1 then hopping eta m a
                else 0)"
proof -
  let ?X = "grid_X N L"
  let ?a = "?X ! 1 - ?X ! 0"
  let ?t = "hopping eta m ?a"
  let ?eps = "onsite ?t q V ?X"
  have len: "length ?eps = N" by (simp add: onsite_def length_grid_X)
  have sp: "grid_spacing ?X = Inr ?a" using assms(1) by (rule grid_spacing_ok)
  have H: "discretized_H N L eta m q V = Inr (hamiltonian N ?t ?eps)"
    by (simp add: discretized_H_def sp)
  have e: "?eps ! i = -2 * ?t + q * V (?X ! i)"
    using assms(2) by (simp add: onsite_def length_grid_X)
  show ?thesis
    using sp H e hamiltonian_length[of N ?t ?eps] hamiltonian_row_length[OF assms(2) len, of ?t]
      hamiltonian_nth[OF assms(2) assms(3) len, of ?t]
    by simp
qed

text \<open>The notebook's own parameters: \<open>N = L = 100\<close>, \<open>eta = m = q = 1\<close>, \<open>V(x) = 0 * x\<close>; the
  entry in row 3, column 4.\<close>

theorem discretized_H_tridiagonal_witness:
  "\<exists>a H. grid_spacing (grid_X 100 100) = Inr a
      \<and> discretized_H 100 100 1 1 1 V_free = Inr H
      \<and> length H = 100 \<and> length (H ! 3) = 100
      \<and> onsite (hopping 1 1 a) 1 V_free (grid_X 100 100) ! 3 = -2 * hopping 1 1 a
      \<and> H ! 3 ! 4 = hopping 1 1 a"
  using discretized_H_tridiagonal[of 100 3 4 100 1 1 1 V_free]
  by (simp add: V_free_def)

lemma evolve_take_length:
  "length (evolve_take k eta psi E ts (Some n) st) = min k (n - ev_cnt st)"
proof (induction k arbitrary: st)
  case 0
  show ?case by simp
next
  case (Suc k)
  show ?case
  proof (cases "ev_cnt st < n")
    case True
    then show ?thesis using Suc.IH by (simp add: evolve_next_def Let_def)
  next
    case False
    then show ?thesis by (simp add: evolve_next_def)
  qed
qed

lemma evolve_take_nth:
  "i < min k (n - ev_cnt st) \<Longrightarrow>
   evolve_take k eta psi E ts (Some n) st ! i =
     (ev_t st + real (Suc i) * ts,
      map (\<lambda>z. exp (- \<i> * complex_of_real E / complex_of_real eta
                        * complex_of_real (ev_t st + real i * ts)) * z) psi)"
proof (induction k arbitrary: st i)
  case 0
  then show ?case by simp
next
  case (Suc k)
  from Suc.prems have lt: "ev_cnt st < n" by arith
  show ?case
  proof (cases i)
    case 0
    then show ?thesis using lt by (simp add: evolve_next_def Let_def)
  next
    case (Suc i')
    let ?st' = "\<lparr>ev_t = ev_t st + ts, ev_cnt = ev_cnt st + 1\<rparr>"
    have "i' < min k (n - ev_cnt ?st')" using Suc.prems Suc by auto
    from Suc.IH[OF this] show ?thesis using lt Suc
      by (simp add: evolve_next_def Let_def algebra_simps)
  qed
qed

lemma evolve_exactly_num_step:
  "n \<le> fuel \<Longrightarrow>
   \<exists>ys. evolve eta psi E timestep (Some n) fuel = Inr ys \<and> length ys = n"
  by (simp add: evolve_def evolve_take_length evolve_start_def)

lemma evolve_phase_lags:
  assumes "i < n" "n \<le> fuel"
  shows "\<exists>ys. evolve eta psi E timestep (Some n) fuel = Inr ys \<and>
     ys ! i =
       (real (Suc i) * timestep,
        map (\<lambda>z. exp (- \<i> * complex_of_real E / complex_of_real eta
                          * complex_of_real (real i * timestep)) * z) psi)"
  using assms evolve_take_nth[of i fuel n evolve_start eta psi E timestep]
  by (simp add: evolve_def evolve_start_def)

text \<open>
  Claim C5 (fails on the code by an off-by-one step): called with the defaults, \<^verbatim>\<open>evolve\<close>
  does yield exactly 200 pairs, but it computes the phase at the time \<open>t\<close> \<^emph>\<open>before\<close> the
  increment and yields \<open>t\<close> \<^emph>\<open>after\<close> it, so every yielded wavefunction carries the phase of
  one time step earlier than the yielded time (\<open>evolve_phase_lags\<close>). At \<open>psi = [1]\<close>,
  \<open>E = pi / 5\<close>, \<open>eta = 1\<close> the first pair is \<open>(5, [1])\<close>, while the textbook phase at the
  yielded time, \<open>exp (- \<i> * E * 5 / eta)\<close>, is \<open>-1\<close>.
\<close>

theorem evolve_first_yield_phase_off:
  "evolve 1 [1] (pi / 5) 5 (Some 200) 200
     = Inr (evolve_take 200 1 [1] (pi / 5) 5 (Some 200) evolve_start)
   \<and> length (evolve_take 200 1 [1] (pi / 5) 5 (Some 200) evolve_start) = 200
   \<and> evolve_take 200 1 [1] (pi / 5) 5 (Some 200) evolve_start ! 0 = (5, [1])
   \<and> map (\<lambda>z. exp (- \<i> * complex_of_real (pi / 5) / complex_of_real 1 * complex_of_real 5) * z) [1]
       = [-1]"
proof -
  have a: "evolve_take 200 1 [1] (pi / 5) 5 (Some 200) evolve_start ! 0 = (5, [1])"
    using evolve_take_nth[of 0 200 200 evolve_start 1 "[1]" "pi / 5" 5]
    by (simp add: evolve_start_def)
  have "- \<i> * complex_of_real (pi / 5) / complex_of_real 1 * complex_of_real 5
          = - (\<i> * complex_of_real pi)"
    by simp
  then have b: "exp (- \<i> * complex_of_real (pi / 5) / complex_of_real 1 * complex_of_real 5) = -1"
    by (simp add: exp_minus)
  show ?thesis
    using a b by (simp add: evolve_def evolve_take_length evolve_start_def)
qed

section \<open>\<^verbatim>\<open>CnX\<close>: properties\<close>

declare CnX.simps [simp del]

lemma run_append:
  "run (g1 @ g2) s = (case run g1 s of None \<Rightarrow> None | Some s' \<Rightarrow> run g2 s')"
  by (induction g1 arbitrary: s) (auto split: option.splits)

lemma run_sandwich:
  assumes "run [g] s = Some s1" and "run G s1 = Some s2" and "run [g'] s2 = Some s3"
  shows "run (g # G @ [g']) s = Some s3"
proof -
  have "run ([g] @ G @ [g']) s = Some s3"
    unfolding run_append using assms by simp
  then show ?thesis by simp
qed

lemma append_checked_ok: "gate_ok g \<Longrightarrow> append_checked g circ = Inr (append_gate g circ)"
  by (simp add: append_checked_def)

lemma cx_target_eq:
  "cx_target circ c target = append_checked (CX_gate c (target_qubit target)) circ"
  by (cases target) (simp_all add: cx_target_def target_item_def and_then_def split: sum.splits)

lemma ccx_target_eq:
  "ccx_target circ a b target = append_checked (CCX_gate a b (target_qubit target)) circ"
  by (cases target) (simp_all add: ccx_target_def target_item_def and_then_def split: sum.splits)

lemma CnX_one: "length cs = 1 \<Longrightarrow> gate_ok (CX_gate (cs ! 0) (target_qubit target)) \<Longrightarrow>
  CnX circ out (PyList cs) target clean_aux =
    finish None (append_gate (CX_gate (cs ! 0) (target_qubit target)) circ) out (PyList cs) clean_aux"
  by (subst CnX.simps) (simp add: cx_target_eq append_checked_def)

lemma CnX_two:
  "length cs = 2 \<Longrightarrow> gate_ok (CCX_gate (cs ! 0) (cs ! 1) (target_qubit target)) \<Longrightarrow>
  CnX circ out (PyList cs) target clean_aux =
    finish None (append_gate (CCX_gate (cs ! 0) (cs ! 1) (target_qubit target)) circ) out
      (PyList cs) clean_aux"
  by (subst CnX.simps) (simp add: ccx_target_eq append_checked_def)

lemma CnX_step:
  assumes "3 \<le> length cs" and "length (items given) = length cs - 2"
      and "gate_ok (CCX_gate (last cs) (last (butlast cs)) (last (items given)))"
  shows "CnX circ out (PyList cs) target (Some given) =
     (let a = last cs; b = last (butlast cs); y = last (items given);
          r = CnX (append_gate (CCX_gate a b y) circ) out
                (PyList (butlast (butlast cs) @ [y])) target
                (Some (PyList (butlast (items given))))
      in r\<lparr>circ_after :=
             (case raised r of
                None \<Rightarrow> append_gate (CCX_gate a b y) (circ_after r)
              | Some e \<Rightarrow> circ_after r),
           aux_after := (if is_list given then aux_after r else Some given)\<rparr>)"
  using assms
  by (subst CnX.simps)
    (auto simp: select_ancillas_def append_checked_ok Let_def split: option.splits)

lemma two_last: "2 \<le> length cs \<Longrightarrow> \<exists>cs0 b a. cs = cs0 @ [b, a]"
proof -
  assume a: "2 \<le> length cs"
  then have "cs \<noteq> []" by auto
  then obtain xs a where xs: "cs = xs @ [a]" by (metis rev_exhaust)
  with a have "xs \<noteq> []" by auto
  then obtain cs0 b where "xs = cs0 @ [b]" by (metis rev_exhaust)
  with xs show ?thesis by simp
qed

lemma CnX_fallback_step:
  assumes "3 \<le> length cs" and "length (items given) \<noteq> length cs - 2"
      and "''aux'' \<notin> set (register_names circ)"
      and "gate_ok (CCX_gate (last cs) (last (butlast cs))
                      (last (QuantumRegister (length cs - 2) ''aux'')))"
  shows "CnX circ out (PyList cs) target (Some given) =
     (let a = last cs; b = last (butlast cs);
          y = last (QuantumRegister (length cs - 2) ''aux'');
          r = CnX (append_gate (CCX_gate a b y)
                     (circ\<lparr>qregs := qregs circ @ [(''aux'', length cs - 2)]\<rparr>))
                (out @ [(length (items given), length cs - 2)])
                (PyList (butlast (butlast cs) @ [y])) target
                (Some (PyList (butlast (QuantumRegister (length cs - 2) ''aux''))))
      in r\<lparr>circ_after :=
             (case raised r of
                None \<Rightarrow> append_gate (CCX_gate a b y) (circ_after r)
              | Some e \<Rightarrow> circ_after r),
           aux_after := Some given\<rparr>)"
  using assms
  by (subst CnX.simps)
    (auto simp: select_ancillas_def add_register_def append_checked_ok Let_def
      split: option.splits)

lemma gate_ok_last:
  assumes "2 \<le> length cs" and "as \<noteq> []" and "distinct (cs @ as @ [t])"
  shows "gate_ok (CCX_gate (last cs) (last (butlast cs)) (last as))"
proof -
  from two_last[OF assms(1)] obtain cs0 b a where cs: "cs = cs0 @ [b, a]" by blast
  from assms(2) obtain as0 y where as: "as = as0 @ [y]" by (metis rev_exhaust)
  show ?thesis using assms(3) unfolding cs as by (auto simp: butlast_append)
qed

lemma CnX_list_core:
  assumes "length cs = length as + 2" and "distinct (cs @ as @ [target_qubit target])"
  shows "\<exists>G. CnX circ out (PyList cs) target (Some (PyList as)) =
            \<lparr>raised = None, circ_after = circ\<lparr>gates := gates circ @ G\<rparr>, stdout_after = out,
             ctrls_after = PyList (if as = [] then cs else [cs ! 0, as ! 0]),
             aux_after = Some (PyList [])\<rparr>
          \<and> list_all is_cx_or_ccx G
          \<and> length G = 2 * length as + 1
          \<and> (\<forall>s. list_all (\<lambda>a. \<not> s a) as \<longrightarrow>
                 run G s = Some (s(target_qubit target := (s (target_qubit target) \<noteq> list_all s cs))))"
  using assms
proof (induction as arbitrary: cs circ rule: rev_induct)
  case Nil
  let ?t = "target_qubit target"
  from Nil.prems(1) obtain c0 c1 where cs: "cs = [c0, c1]"
    by (cases cs; cases "tl cs") auto
  have ne: "c0 \<noteq> c1" "c0 \<noteq> ?t" "c1 \<noteq> ?t" using Nil.prems(2) cs by auto
  let ?G = "[CCX_gate c0 c1 ?t]"
  have 1: "CnX circ out (PyList cs) target (Some (PyList [])) =
            \<lparr>raised = None, circ_after = circ\<lparr>gates := gates circ @ ?G\<rparr>, stdout_after = out,
             ctrls_after = PyList (if [] = ([]::qubit list) then cs else [cs ! 0, [] ! 0]),
             aux_after = Some (PyList [])\<rparr>"
    using cs ne by (simp add: CnX_two finish_def append_gate_def)
  have 2: "\<forall>s. list_all (\<lambda>a. \<not> s a) [] \<longrightarrow>
             run ?G s = Some (s(?t := (s ?t \<noteq> list_all s cs)))"
    using cs ne by auto
  have 3: "list_all is_cx_or_ccx ?G" by simp
  have 4: "length ?G = 2 * length ([]::qubit list) + 1" by simp
  show ?case by (rule exI[of _ ?G]) (intro conjI 1 2 3 4)
next
  case (snoc y as0)
  let ?t = "target_qubit target"
  from snoc.prems(1) have "2 \<le> length cs" by simp
  then obtain cs0 b a where cs: "cs = cs0 @ [b, a]" using two_last by blast
  have len0: "length cs0 = length as0 + 1" using snoc.prems(1) cs by simp
  have dist: "distinct (cs0 @ [b, a] @ as0 @ [y] @ [?t])" using snoc.prems(2) cs by simp
  have d': "distinct ((cs0 @ [y]) @ as0 @ [?t])" using dist by auto
  have ne: "a \<noteq> b" "a \<noteq> y" "b \<noteq> y" "a \<noteq> ?t" "b \<noteq> ?t" "y \<noteq> ?t" "y \<notin> set cs0"
    using dist by auto
  have ok: "gate_ok (CCX_gate (last cs) (last (butlast cs)) (last (items (PyList (as0 @ [y])))))"
    using ne cs by (simp add: butlast_append)
  let ?c1 = "append_gate (CCX_gate a b y) circ"
  have "length (cs0 @ [y]) = length as0 + 2" using len0 by simp
  from snoc.IH[OF this d', of ?c1]
  obtain G' where
    r: "CnX ?c1 out (PyList (cs0 @ [y])) target (Some (PyList as0)) =
            \<lparr>raised = None, circ_after = ?c1\<lparr>gates := gates ?c1 @ G'\<rparr>, stdout_after = out,
             ctrls_after = PyList (if as0 = [] then cs0 @ [y] else [(cs0 @ [y]) ! 0, as0 ! 0]),
             aux_after = Some (PyList [])\<rparr>"
    and cc: "list_all is_cx_or_ccx G'"
    and lenG: "length G' = 2 * length as0 + 1"
    and sem: "\<And>s. list_all (\<lambda>a. \<not> s a) as0 \<Longrightarrow>
                run G' s = Some (s(?t := (s ?t \<noteq> list_all s (cs0 @ [y]))))"
    by blast
  let ?G = "CCX_gate a b y # G' @ [CCX_gate a b y]"
  have ctl: "(if as0 = [] then cs0 @ [y] else [(cs0 @ [y]) ! 0, as0 ! 0])
               = [cs ! 0, (as0 @ [y]) ! 0]"
  proof (cases "as0 = []")
    case True
    then obtain c0 where "cs0 = [c0]" using len0 by (cases cs0) auto
    then show ?thesis using True cs by simp
  next
    case False
    moreover have "cs0 \<noteq> []" using len0 by auto
    ultimately show ?thesis using cs by (simp add: nth_append)
  qed
  have three: "3 \<le> length cs" and lenas: "length (items (PyList (as0 @ [y]))) = length cs - 2"
    using len0 cs by simp_all
  have step: "CnX circ out (PyList cs) target (Some (PyList (as0 @ [y]))) =
            \<lparr>raised = None, circ_after = circ\<lparr>gates := gates circ @ ?G\<rparr>, stdout_after = out,
             ctrls_after = PyList (if as0 @ [y] = [] then cs else [cs ! 0, (as0 @ [y]) ! 0]),
             aux_after = Some (PyList [])\<rparr>"
    unfolding CnX_step[OF three lenas ok]
    using r ctl by (simp add: cs butlast_append append_gate_def)
  have sem': "run ?G s = Some (s(?t := (s ?t \<noteq> list_all s cs)))"
    if clean0: "list_all (\<lambda>a. \<not> s a) (as0 @ [y])"
    for s
  proof -
    let ?s1 = "s(y := (s a \<and> s b))"
    have clean: "\<not> s y" "list_all (\<lambda>a. \<not> s a) as0" using clean0 by auto
    have clean1: "list_all (\<lambda>a. \<not> ?s1 a) as0"
      using clean(2) dist by (auto simp: list_all_iff)
    have all1: "list_all ?s1 (cs0 @ [y]) = list_all s cs"
      using ne cs by (auto simp: list_all_iff)
    have run1: "run [CCX_gate a b y] s = Some ?s1"
      using ne clean(1) by simp
    have run2: "run G' ?s1 = Some (?s1(?t := (?s1 ?t \<noteq> list_all ?s1 (cs0 @ [y]))))"
      using clean1 by (rule sem)
    have run3: "run [CCX_gate a b y] (?s1(?t := (?s1 ?t \<noteq> list_all ?s1 (cs0 @ [y]))))
                  = Some (s(?t := (s ?t \<noteq> list_all s cs)))"
    proof -
      let ?S = "?s1(?t := (?s1 ?t \<noteq> list_all ?s1 (cs0 @ [y])))"
      have "?S(y := (?S y \<noteq> (?S a \<and> ?S b))) = s(?t := (s ?t \<noteq> list_all s cs))"
        unfolding all1 using ne clean(1) by (auto simp: fun_eq_iff)
      then show ?thesis using ne by simp
    qed
    show ?thesis using run1 run2 run3 by (rule run_sandwich)
  qed
  have cc': "list_all is_cx_or_ccx ?G" using cc by simp
  have lenG': "length ?G = 2 * length (as0 @ [y]) + 1" using lenG by simp
  show ?case using sem' by (intro exI[of _ ?G] conjI step cc' lenG') blast
qed

lemma CnX_given_seq:
  assumes "3 \<le> length cs" and "length as = length cs - 2"
      and "gate_ok (CCX_gate (last cs) (last (butlast cs)) (last as))"
  shows "CnX circ out (PyList cs) target (Some (PySeq as)) =
           (CnX circ out (PyList cs) target (Some (PyList as)))\<lparr>aux_after := Some (PySeq as)\<rparr>"
  using assms
  by (simp add: CnX_step[where given = "PySeq as"] CnX_step[where given = "PyList as"] Let_def)

lemma CnX_given_any:
  assumes "3 \<le> length cs" and "length (items given) = length cs - 2"
      and "distinct (cs @ items given @ [target_qubit target])"
  shows "\<exists>G. raised (CnX circ out (PyList cs) target (Some given)) = None
          \<and> circ_after (CnX circ out (PyList cs) target (Some given)) = circ\<lparr>gates := gates circ @ G\<rparr>
          \<and> stdout_after (CnX circ out (PyList cs) target (Some given)) = out
          \<and> ctrls_after (CnX circ out (PyList cs) target (Some given)) = PyList [cs ! 0, items given ! 0]
          \<and> aux_after (CnX circ out (PyList cs) target (Some given))
               = (if is_list given then Some (PyList []) else Some given)
          \<and> list_all is_cx_or_ccx G
          \<and> length G = 2 * length (items given) + 1
          \<and> (\<forall>s. list_all (\<lambda>a. \<not> s a) (items given) \<longrightarrow>
                 run G s = Some (s(target_qubit target := (s (target_qubit target) \<noteq> list_all s cs))))"
proof -
  let ?as = "items given"
  have len: "length cs = length ?as + 2" using assms by simp
  have ne: "?as \<noteq> []" using assms by auto
  have two: "2 \<le> length cs" using assms(1) by simp
  note ok = gate_ok_last[OF two ne assms(3)]
  from CnX_list_core[OF len assms(3), where circ = circ and out = out] ne
  obtain G where
    r: "CnX circ out (PyList cs) target (Some (PyList ?as)) =
            \<lparr>raised = None, circ_after = circ\<lparr>gates := gates circ @ G\<rparr>, stdout_after = out,
             ctrls_after = PyList [cs ! 0, ?as ! 0], aux_after = Some (PyList [])\<rparr>"
    and cc: "list_all is_cx_or_ccx G"
    and lenG: "length G = 2 * length ?as + 1"
    and sem: "\<forall>s. list_all (\<lambda>a. \<not> s a) ?as \<longrightarrow>
                 run G s = Some (s(target_qubit target := (s (target_qubit target) \<noteq> list_all s cs)))"
    by auto
  have res: "CnX circ out (PyList cs) target (Some given) =
            \<lparr>raised = None, circ_after = circ\<lparr>gates := gates circ @ G\<rparr>, stdout_after = out,
             ctrls_after = PyList [cs ! 0, ?as ! 0],
             aux_after = (if is_list given then Some (PyList []) else Some given)\<rparr>"
  proof (cases given)
    case (PyList as)
    then show ?thesis using r by simp
  next
    case (PySeq as)
    then show ?thesis using r assms(1,2) ok CnX_given_seq[where cs = cs and as = as and target = target and circ = circ and out = out] by simp
  qed
  show ?thesis using cc lenG sem by (intro exI[of _ G]) (simp add: res)
qed

text \<open>
  Claim C2: for a list of \<open>n \<ge> 1\<close> control qubits, with \<open>n - 2\<close> clean ancilla qubits
  supplied when \<open>n \<ge> 3\<close> (all qubits distinct from one another and from the target), \<^verbatim>\<open>CnX\<close>
  completes without raising, appends only \<^verbatim>\<open>cx\<close> and \<^verbatim>\<open>ccx\<close> gates, and on every
  computational-basis state the appended gates flip the target exactly when all controls
  are 1 and leave every other qubit (controls and ancillas included) as it was.
\<close>

theorem CnX_n_controlled_not:
  assumes "cs \<noteq> []"
      and "distinct (cs @ [target_qubit target])"
      and "3 \<le> length cs \<Longrightarrow>
             \<exists>given. clean_aux = Some given \<and> length (items given) = length cs - 2
               \<and> distinct (cs @ items given @ [target_qubit target])
               \<and> list_all (\<lambda>a. \<not> s a) (items given)"
  shows "\<exists>G. raised (CnX circ out (PyList cs) target clean_aux) = None
           \<and> gates (circ_after (CnX circ out (PyList cs) target clean_aux)) = gates circ @ G
           \<and> list_all is_cx_or_ccx G
           \<and> run G s = Some (s(target_qubit target := (s (target_qubit target) \<noteq> list_all s cs)))"
proof -
  let ?t = "target_qubit target"
  consider (one) "length cs = 1" | (two) "length cs = 2" | (more) "3 \<le> length cs"
    using assms(1) by (cases cs; cases "tl cs"; cases "tl (tl cs)") auto
  then show ?thesis
  proof cases
    case one
    then obtain c0 where cs: "cs = [c0]" by (cases cs) auto
    have ne: "c0 \<noteq> ?t" using assms(2) cs by simp
    then have "run [CX_gate c0 ?t] s = Some (s(?t := (s ?t \<noteq> list_all s cs)))"
      using cs by simp
    then show ?thesis using cs ne
      by (intro exI[of _ "[CX_gate c0 ?t]"]) (simp add: CnX_one finish_def append_gate_def)
  next
    case two
    then obtain c0 c1 where cs: "cs = [c0, c1]" by (cases cs; cases "tl cs") auto
    have ne: "c0 \<noteq> ?t" "c1 \<noteq> ?t" "c0 \<noteq> c1" using assms(2) cs by auto
    then have "run [CCX_gate c0 c1 ?t] s = Some (s(?t := (s ?t \<noteq> list_all s cs)))"
      using cs by simp
    then show ?thesis using cs ne
      by (intro exI[of _ "[CCX_gate c0 c1 ?t]"]) (simp add: CnX_two finish_def append_gate_def)
  next
    case more
    from assms(3)[OF more] obtain given where
      g: "clean_aux = Some given" "length (items given) = length cs - 2"
         "distinct (cs @ items given @ [?t])" "list_all (\<lambda>a. \<not> s a) (items given)"
      by blast
    from CnX_given_any[OF more g(2) g(3), where circ = circ and out = out] g(4)
    show ?thesis unfolding g(1) by auto
  qed
qed

text \<open>
  Claim C9: with more than two controls and \<^verbatim>\<open>clean_aux = None\<close>, \<^verbatim>\<open>CnX\<close> raises TypeError
  (from \<^verbatim>\<open>len(aux)\<close> in the warning) with the circuit, the output and the arguments
  untouched; and whatever the number of controls, a call with \<^verbatim>\<open>clean_aux = None\<close> never
  adds a register to the circuit and never prints the warning: the ancilla-creating
  fallback is not reached.
\<close>

theorem CnX_no_ancillas_TypeError:
  "(2 < length (items ctrls) \<longrightarrow>
      CnX circ out ctrls target None = finish (Some TypeError) circ out ctrls None)
   \<and> qregs (circ_after (CnX circ out ctrls target None)) = qregs circ
   \<and> stdout_after (CnX circ out ctrls target None) = out"
  by (subst (1 2 3) CnX.simps)
    (simp add: select_ancillas_def finish_def append_gate_def append_checked_def
      cx_target_eq ccx_target_eq)

lemma length_QuantumRegister: "length (QuantumRegister n name) = n"
  by (simp add: QuantumRegister_def)

lemma distinct_QuantumRegister: "distinct (QuantumRegister n name)"
  by (simp add: QuantumRegister_def distinct_map inj_on_def)

lemma fresh_register_apart:
  assumes "name \<notin> set (register_names circ)" and "in_circuit circ q"
  shows "q \<notin> set (QuantumRegister n name)"
  using assms by (cases q) (auto simp: QuantumRegister_def list_ex_iff register_names_def)

lemma fresh_register_distinct:
  assumes "name \<notin> set (register_names circ)" and "list_all (in_circuit circ) (cs @ [t])"
      and "distinct (cs @ [t])"
  shows "distinct (cs @ QuantumRegister n name @ [t])"
proof -
  have "q \<notin> set (QuantumRegister n name)" if "q \<in> set (cs @ [t])" for q
  proof -
    from that assms(2) have "in_circuit circ q" unfolding list_all_iff by blast
    then show ?thesis by (rule fresh_register_apart[OF assms(1)])
  qed
  then have "set (cs @ [t]) \<inter> set (QuantumRegister n name) = {}" by blast
  then show ?thesis using assms(3) distinct_QuantumRegister[of n name] by auto
qed

lemma CnX_fallback_as_given:
  assumes "3 \<le> length cs" and "length (items given) \<noteq> length cs - 2"
      and "''aux'' \<notin> set (register_names circ)"
      and "distinct (cs @ QuantumRegister (length cs - 2) ''aux'' @ [target_qubit target])"
  shows "CnX circ out (PyList cs) target (Some given) =
           (CnX (circ\<lparr>qregs := qregs circ @ [(''aux'', length cs - 2)]\<rparr>)
                (out @ [(length (items given), length cs - 2)]) (PyList cs) target
                (Some (PyList (QuantumRegister (length cs - 2) ''aux''))))
             \<lparr>aux_after := Some given\<rparr>"
proof -
  let ?Q = "QuantumRegister (length cs - 2) ''aux''"
  have two: "2 \<le> length cs" using assms(1) by simp
  have ne: "?Q \<noteq> []" using assms(1) by (simp add: QuantumRegister_def)
  note ok = gate_ok_last[OF two ne assms(4)]
  have lenQ: "length (items (PyList ?Q)) = length cs - 2" by (simp add: length_QuantumRegister)
  have ok': "gate_ok (CCX_gate (last cs) (last (butlast cs)) (last (items (PyList ?Q))))"
    using ok by simp
  show ?thesis
    unfolding CnX_fallback_step[OF assms(1,2,3) ok] CnX_step[OF assms(1) lenQ ok']
    by (simp add: Let_def)
qed

lemma CnX_register_clash:
  assumes "3 \<le> length (items ctrls)" and "length (items given) \<noteq> length (items ctrls) - 2"
      and "''aux'' \<in> set (register_names circ)"
  shows "CnX circ out ctrls target (Some given) =
           finish (Some CircuitError) circ
             (out @ [(length (items given), length (items ctrls) - 2)]) ctrls (Some given)"
  using assms by (subst CnX.simps) (auto simp: select_ancillas_def add_register_def)

text \<open>Calls that the toolkit stops: the target among three controls (the register is
  added and the first gate appended before the last one is refused), and a control that
  repeats (the two controls and the ancilla stay popped).\<close>

lemma CnX_target_among_controls:
  "raised (CnX demo_circuit [] (PyList demo_ctrls) (TQubit (Qubit ''q'' 0)) (Some (PyList [])))
     = Some CircuitError
   \<and> circ_after (CnX demo_circuit [] (PyList demo_ctrls) (TQubit (Qubit ''q'' 0)) (Some (PyList [])))
     = \<lparr>qregs = [(''q'', 3), (''t'', 1), (''a'', 2), (''aux'', 1)], cregs = [],
        gates = [CCX_gate (Qubit ''q'' 2) (Qubit ''q'' 1) (Qubit ''aux'' 0)]\<rparr>
   \<and> stdout_after (CnX demo_circuit [] (PyList demo_ctrls) (TQubit (Qubit ''q'' 0)) (Some (PyList [])))
     = [(0, 1)]"
  by code_simp

lemma CnX_repeated_control:
  "CnX demo_circuit [] (PyList [Qubit ''q'' 0, Qubit ''q'' 1, Qubit ''q'' 1]) (TQubit (Qubit ''t'' 0))
      (Some (PyList [Qubit ''a'' 0]))
     = finish (Some CircuitError) demo_circuit [] (PyList [Qubit ''q'' 0]) (Some (PyList []))"
  by code_simp

text \<open>Three controls set to 1, one clean ancilla: the target is flipped.\<close>

theorem CnX_n_controlled_not_witness:
  "\<exists>G. raised (CnX demo_circuit [] (PyList demo_ctrls) (TQubit (Qubit ''t'' 0))
              (Some (PyList [Qubit ''a'' 0]))) = None
     \<and> gates (circ_after (CnX demo_circuit [] (PyList demo_ctrls) (TQubit (Qubit ''t'' 0))
              (Some (PyList [Qubit ''a'' 0])))) = gates demo_circuit @ G
     \<and> list_all is_cx_or_ccx G
     \<and> run G demo_state = Some (demo_state(Qubit ''t'' 0 := True))"
  using CnX_n_controlled_not[of demo_ctrls "TQubit (Qubit ''t'' 0)" "Some (PyList [Qubit ''a'' 0])"
      demo_state demo_circuit "[]"]
  by (simp add: demo_ctrls_def demo_state_def)

text \<open>Three controls and no ancilla list.\<close>

theorem CnX_no_ancillas_TypeError_witness:
  "CnX demo_circuit [] (PyList demo_ctrls) (TQubit (Qubit ''t'' 0)) None
     = finish (Some TypeError) demo_circuit [] (PyList demo_ctrls) None
   \<and> qregs (circ_after (CnX demo_circuit [] (PyList demo_ctrls) (TQubit (Qubit ''t'' 0)) None))
       = qregs demo_circuit
   \<and> stdout_after (CnX demo_circuit [] (PyList demo_ctrls) (TQubit (Qubit ''t'' 0)) None) = []"
proof -
  have l: "2 < length (items (PyList demo_ctrls))" by (simp add: demo_ctrls_def)
  show ?thesis
    using CnX_no_ancillas_TypeError[of "PyList demo_ctrls" demo_circuit "[]" "TQubit (Qubit ''t'' 0)"] l
    by blast
qed

text \<open>
  Claim C4 as stated fails: with three controls and an empty (wrongly sized) ancilla list
  the call is not rejected. It completes and appends the gates of the decomposition, on an
  ancilla of a register that it creates itself.
\<close>

theorem CnX_wrong_ancilla_count_rejected_counterexample:
  "raised (CnX demo_circuit [] (PyList demo_ctrls) (TQubit (Qubit ''t'' 0)) (Some (PyList []))) = None
   \<and> gates (circ_after (CnX demo_circuit [] (PyList demo_ctrls) (TQubit (Qubit ''t'' 0)) (Some (PyList []))))
       = [CCX_gate (Qubit ''q'' 2) (Qubit ''q'' 1) (Qubit ''aux'' 0),
          CCX_gate (Qubit ''q'' 0) (Qubit ''aux'' 0) (Qubit ''t'' 0),
          CCX_gate (Qubit ''q'' 2) (Qubit ''q'' 1) (Qubit ''aux'' 0)]"
  by code_simp

text \<open>
  Claim C4, amended. Let \<^verbatim>\<open>CnX\<close> be called with a list of more than two control qubits
  that are pairwise distinct, differ from the target, and belong (as the target does) to
  registers of the circuit. Then:

  \<^item> a missing ancilla list (\<^verbatim>\<open>None\<close>) ends the call with a TypeError before anything is
    printed, added or appended;
  \<^item> a wrongly sized ancilla list is not rejected. When the circuit has no register
    (quantum or classical) named \<^verbatim>\<open>aux\<close> yet, the call prints the warning (got, need), adds a fresh register \<^verbatim>\<open>aux\<close> of
    \<open>n - 2\<close> qubits and appends the \<open>2 * (n - 2) + 1\<close> gates of the decomposition, with
    those qubits as ancillas; on every basis state in which the fresh qubits are 0 the
    gates implement the \<open>n\<close>-controlled NOT;
  \<^item> when the circuit already has a register named \<^verbatim>\<open>aux\<close>, a wrongly sized ancilla list
    ends the call with the toolkit's CircuitError (from \<^verbatim>\<open>add_register\<close>), after the
    warning was printed and with no register added, no gate appended and the arguments
    as they were.
\<close>

theorem CnX_ancilla_check:
  assumes "2 < length cs"
      and "distinct (cs @ [target_qubit target])"
      and "list_all (in_circuit circ) (cs @ [target_qubit target])"
  shows "CnX circ out (PyList cs) target None = finish (Some TypeError) circ out (PyList cs) None
       \<and> (length (items given) \<noteq> length cs - 2 \<and> ''aux'' \<notin> set (register_names circ) \<longrightarrow>
           (\<exists>G. raised (CnX circ out (PyList cs) target (Some given)) = None
              \<and> circ_after (CnX circ out (PyList cs) target (Some given))
                  = circ\<lparr>qregs := qregs circ @ [(''aux'', length cs - 2)], gates := gates circ @ G\<rparr>
              \<and> stdout_after (CnX circ out (PyList cs) target (Some given))
                  = out @ [(length (items given), length cs - 2)]
              \<and> list_all is_cx_or_ccx G
              \<and> length G = 2 * (length cs - 2) + 1
              \<and> (\<forall>s. list_all (\<lambda>a. \<not> s a) (QuantumRegister (length cs - 2) ''aux'') \<longrightarrow>
                    run G s = Some (s(target_qubit target :=
                                        (s (target_qubit target) \<noteq> list_all s cs))))))
       \<and> (length (items given) \<noteq> length cs - 2 \<and> ''aux'' \<in> set (register_names circ) \<longrightarrow>
            CnX circ out (PyList cs) target (Some given)
              = finish (Some CircuitError) circ (out @ [(length (items given), length cs - 2)])
                  (PyList cs) (Some given))"
proof (intro conjI impI)
  show "CnX circ out (PyList cs) target None = finish (Some TypeError) circ out (PyList cs) None"
    using assms(1) by (subst CnX.simps) (auto simp: select_ancillas_def)
next
  assume a: "length (items given) \<noteq> length cs - 2 \<and> ''aux'' \<notin> set (register_names circ)"
  let ?Q = "QuantumRegister (length cs - 2) ''aux''"
  let ?c = "circ\<lparr>qregs := qregs circ @ [(''aux'', length cs - 2)]\<rparr>"
  let ?o = "out @ [(length (items given), length cs - 2)]"
  have three: "3 \<le> length cs" using assms(1) by simp
  have fresh: "''aux'' \<notin> set (register_names circ)" using a by simp
  have d: "distinct (cs @ ?Q @ [target_qubit target])"
    by (rule fresh_register_distinct[OF fresh assms(3) assms(2)])
  have d': "distinct (cs @ items (PyList ?Q) @ [target_qubit target])" using d by simp
  have eq: "CnX circ out (PyList cs) target (Some given) =
              (CnX ?c ?o (PyList cs) target (Some (PyList ?Q)))\<lparr>aux_after := Some given\<rparr>"
    using three a d by (simp add: CnX_fallback_as_given)
  have "length (items (PyList ?Q)) = length cs - 2" by (simp add: length_QuantumRegister)
  from CnX_given_any[OF three this d', where circ = "?c" and out = "?o"]
  show "\<exists>G. raised (CnX circ out (PyList cs) target (Some given)) = None
              \<and> circ_after (CnX circ out (PyList cs) target (Some given))
                  = circ\<lparr>qregs := qregs circ @ [(''aux'', length cs - 2)], gates := gates circ @ G\<rparr>
              \<and> stdout_after (CnX circ out (PyList cs) target (Some given))
                  = out @ [(length (items given), length cs - 2)]
              \<and> list_all is_cx_or_ccx G
              \<and> length G = 2 * (length cs - 2) + 1
              \<and> (\<forall>s. list_all (\<lambda>a. \<not> s a) (QuantumRegister (length cs - 2) ''aux'') \<longrightarrow>
                    run G s = Some (s(target_qubit target :=
                                        (s (target_qubit target) \<noteq> list_all s cs))))"
    unfolding eq by (auto simp: length_QuantumRegister)
next
  assume a: "length (items given) \<noteq> length cs - 2 \<and> ''aux'' \<in> set (register_names circ)"
  have three: "3 \<le> length (items (PyList cs))" using assms(1) by simp
  show "CnX circ out (PyList cs) target (Some given)
              = finish (Some CircuitError) circ (out @ [(length (items given), length cs - 2)])
                  (PyList cs) (Some given)"
    using CnX_register_clash[OF three, where given = given and circ = circ and out = out and target = target] a by simp
qed

text \<open>Three controls set to 1: without an ancilla list the call fails; with an empty one it
  creates the ancilla \<^verbatim>\<open>aux[0]\<close> itself and flips the target, unless the circuit has a
  register \<^verbatim>\<open>aux\<close> already.\<close>

theorem CnX_ancilla_check_witness:
  "CnX demo_circuit [] (PyList demo_ctrls) (TQubit (Qubit ''t'' 0)) None
      = finish (Some TypeError) demo_circuit [] (PyList demo_ctrls) None
   \<and> (\<exists>G. raised (CnX demo_circuit [] (PyList demo_ctrls) (TQubit (Qubit ''t'' 0)) (Some (PyList []))) = None
        \<and> circ_after (CnX demo_circuit [] (PyList demo_ctrls) (TQubit (Qubit ''t'' 0)) (Some (PyList [])))
            = demo_circuit\<lparr>qregs := qregs demo_circuit @ [(''aux'', 1)], gates := gates demo_circuit @ G\<rparr>
        \<and> stdout_after (CnX demo_circuit [] (PyList demo_ctrls) (TQubit (Qubit ''t'' 0)) (Some (PyList [])))
            = [(0, 1)]
        \<and> list_all is_cx_or_ccx G
        \<and> length G = 3
        \<and> run G demo_state = Some (demo_state(Qubit ''t'' 0 := True)))
   \<and> CnX aux_circuit [] (PyList demo_ctrls) (TQubit (Qubit ''t'' 0)) (Some (PyList []))
      = finish (Some CircuitError) aux_circuit [(0, 1)] (PyList demo_ctrls) (Some (PyList []))"
proof -
  have d: "distinct (demo_ctrls @ [target_qubit (TQubit (Qubit ''t'' 0))])"
    by (simp add: demo_ctrls_def)
  have m: "list_all (in_circuit demo_circuit) (demo_ctrls @ [target_qubit (TQubit (Qubit ''t'' 0))])"
    by (simp add: demo_ctrls_def demo_circuit_def)
  have c: "list_all (\<lambda>a. \<not> demo_state a) (QuantumRegister (length demo_ctrls - 2) ''aux'')"
    by (simp add: demo_ctrls_def QuantumRegister_def demo_state_def)
  have n: "''aux'' \<notin> set (register_names demo_circuit)"
    by (simp add: demo_circuit_def register_names_def)
  have l: "2 < length demo_ctrls" by (simp add: demo_ctrls_def)
  have v: "list_all demo_state demo_ctrls" "\<not> demo_state (Qubit ''t'' 0)"
    by (simp_all add: demo_ctrls_def demo_state_def)
  have m': "list_all (in_circuit aux_circuit) (demo_ctrls @ [target_qubit (TQubit (Qubit ''t'' 0))])"
    by (simp add: demo_ctrls_def aux_circuit_def)
  have n': "''aux'' \<in> set (register_names aux_circuit)"
    by (simp add: aux_circuit_def register_names_def)
  have len: "length demo_ctrls - 2 = 1" by (simp add: demo_ctrls_def)
  show ?thesis
    using CnX_ancilla_check[OF l d m, where out = "[]" and given = "PyList []"]
      CnX_ancilla_check[OF l d m', where out = "[]" and given = "PyList []"] c n n' v
    unfolding len by auto
qed

text \<open>
  Claim C10, amended. Let \<^verbatim>\<open>CnX\<close> be called with a list of more than two control qubits
  that are pairwise distinct, differ from the target, and belong (as the target does) to
  registers of the circuit, and with \<^verbatim>\<open>clean_aux\<close> passed as a list. Then:

  \<^item> when \<^verbatim>\<open>clean_aux\<close> has the required length \<open>n - 2\<close>, and its qubits are qubits of the
    circuit that are pairwise distinct and differ from the controls and the target, the
    call completes and has mutated both of its caller's lists. Each level of the
    recursion hands the same two list objects on with the last two controls replaced by
    the last ancilla and that ancilla removed from \<^verbatim>\<open>clean_aux\<close>; after the \<open>n - 2\<close> levels
    \<^verbatim>\<open>ctrls\<close> is \<open>[ctrls[0], clean_aux[0]]\<close> and \<^verbatim>\<open>clean_aux\<close> is empty;
  \<^item> when \<^verbatim>\<open>clean_aux\<close> has any other length and the circuit has no register (quantum or
    classical) named \<^verbatim>\<open>aux\<close> yet, the call completes, \<^verbatim>\<open>clean_aux\<close> comes back unchanged (the ancillas are popped
    from a fresh list), and \<^verbatim>\<open>ctrls\<close> comes back as \<open>[ctrls[0], aux[0]]\<close> with \<open>aux\<close> the
    register the call created;
  \<^item> when \<^verbatim>\<open>clean_aux\<close> has any other length and the circuit already has a register named
    \<^verbatim>\<open>aux\<close>, the call ends with the toolkit's CircuitError (from \<^verbatim>\<open>add_register\<close>) and
    both lists come back unchanged.
\<close>

theorem CnX_list_arguments_mutated:
  assumes "2 < length cs"
      and "distinct (cs @ [target_qubit target])"
      and "list_all (in_circuit circ) (cs @ [target_qubit target])"
  shows "(length as = length cs - 2 \<and> distinct (cs @ as @ [target_qubit target])
            \<and> list_all (in_circuit circ) as \<longrightarrow>
            raised (CnX circ out (PyList cs) target (Some (PyList as))) = None
          \<and> ctrls_after (CnX circ out (PyList cs) target (Some (PyList as))) = PyList [cs ! 0, as ! 0]
          \<and> aux_after (CnX circ out (PyList cs) target (Some (PyList as))) = Some (PyList [])
          \<and> ctrls_after (CnX circ out (PyList cs) target (Some (PyList as)))
              = ctrls_after (CnX (append_gate (CCX_gate (last cs) (last (butlast cs)) (last as)) circ) out
                               (PyList (butlast (butlast cs) @ [last as])) target
                               (Some (PyList (butlast as))))
          \<and> aux_after (CnX circ out (PyList cs) target (Some (PyList as)))
              = aux_after (CnX (append_gate (CCX_gate (last cs) (last (butlast cs)) (last as)) circ) out
                               (PyList (butlast (butlast cs) @ [last as])) target
                               (Some (PyList (butlast as)))))
       \<and> (length as \<noteq> length cs - 2 \<and> ''aux'' \<notin> set (register_names circ) \<longrightarrow>
            raised (CnX circ out (PyList cs) target (Some (PyList as))) = None
          \<and> ctrls_after (CnX circ out (PyList cs) target (Some (PyList as)))
              = PyList [cs ! 0, Qubit ''aux'' 0]
          \<and> aux_after (CnX circ out (PyList cs) target (Some (PyList as))) = Some (PyList as))
       \<and> (length as \<noteq> length cs - 2 \<and> ''aux'' \<in> set (register_names circ) \<longrightarrow>
            raised (CnX circ out (PyList cs) target (Some (PyList as))) = Some CircuitError
          \<and> ctrls_after (CnX circ out (PyList cs) target (Some (PyList as))) = PyList cs
          \<and> aux_after (CnX circ out (PyList cs) target (Some (PyList as))) = Some (PyList as))"
proof (intro conjI impI)
  assume a: "length as = length cs - 2 \<and> distinct (cs @ as @ [target_qubit target])
               \<and> list_all (in_circuit circ) as"
  have three: "3 \<le> length cs" using assms(1) by simp
  have len': "length (items (PyList as)) = length cs - 2" using a by simp
  have d: "distinct (cs @ items (PyList as) @ [target_qubit target])" using a by simp
  have ne: "as \<noteq> []" using a three by auto
  have two: "2 \<le> length cs" using three by simp
  have ok: "gate_ok (CCX_gate (last cs) (last (butlast cs)) (last (items (PyList as))))"
    using gate_ok_last[OF two ne, of "target_qubit target"] a by simp
  from CnX_given_any[OF three len' d, where circ = circ and out = out]
  show "raised (CnX circ out (PyList cs) target (Some (PyList as))) = None"
    and "ctrls_after (CnX circ out (PyList cs) target (Some (PyList as))) = PyList [cs ! 0, as ! 0]"
    and "aux_after (CnX circ out (PyList cs) target (Some (PyList as))) = Some (PyList [])"
    by auto
  show "ctrls_after (CnX circ out (PyList cs) target (Some (PyList as)))
              = ctrls_after (CnX (append_gate (CCX_gate (last cs) (last (butlast cs)) (last as)) circ) out
                               (PyList (butlast (butlast cs) @ [last as])) target
                               (Some (PyList (butlast as))))"
    by (simp add: CnX_step[OF three len' ok] Let_def)
  show "aux_after (CnX circ out (PyList cs) target (Some (PyList as)))
              = aux_after (CnX (append_gate (CCX_gate (last cs) (last (butlast cs)) (last as)) circ) out
                               (PyList (butlast (butlast cs) @ [last as])) target
                               (Some (PyList (butlast as))))"
    by (simp add: CnX_step[OF three len' ok] Let_def)
next
  assume a: "length as \<noteq> length cs - 2 \<and> ''aux'' \<notin> set (register_names circ)"
  let ?Q = "QuantumRegister (length cs - 2) ''aux''"
  let ?c = "circ\<lparr>qregs := qregs circ @ [(''aux'', length cs - 2)]\<rparr>"
  let ?o = "out @ [(length as, length cs - 2)]"
  have three: "3 \<le> length cs" using assms(1) by simp
  have fresh: "''aux'' \<notin> set (register_names circ)" using a by simp
  have d: "distinct (cs @ ?Q @ [target_qubit target])"
    by (rule fresh_register_distinct[OF fresh assms(3) assms(2)])
  have d': "distinct (cs @ items (PyList ?Q) @ [target_qubit target])" using d by simp
  have eq: "CnX circ out (PyList cs) target (Some (PyList as)) =
              (CnX ?c ?o (PyList cs) target (Some (PyList ?Q)))\<lparr>aux_after := Some (PyList as)\<rparr>"
    using three a d CnX_fallback_as_given[where cs = cs and given = "PyList as" and circ = circ and target = target and out = out] by simp
  have lenQ: "length (items (PyList ?Q)) = length cs - 2" by (simp add: length_QuantumRegister)
  have q0: "?Q ! 0 = Qubit ''aux'' 0" using three by (simp add: QuantumRegister_def)
  from CnX_given_any[OF three lenQ d', where circ = "?c" and out = "?o"] q0
  show "raised (CnX circ out (PyList cs) target (Some (PyList as))) = None"
    and "ctrls_after (CnX circ out (PyList cs) target (Some (PyList as)))
              = PyList [cs ! 0, Qubit ''aux'' 0]"
    and "aux_after (CnX circ out (PyList cs) target (Some (PyList as))) = Some (PyList as)"
    unfolding eq by auto
next
  assume a: "length as \<noteq> length cs - 2 \<and> ''aux'' \<in> set (register_names circ)"
  have three: "3 \<le> length (items (PyList cs))" using assms(1) by simp
  have eq: "CnX circ out (PyList cs) target (Some (PyList as))
              = finish (Some CircuitError) circ (out @ [(length as, length cs - 2)])
                  (PyList cs) (Some (PyList as))"
    using CnX_register_clash[OF three, where given = "PyList as" and circ = circ and out = out and target = target] a by simp
  show "raised (CnX circ out (PyList cs) target (Some (PyList as))) = Some CircuitError"
    and "ctrls_after (CnX circ out (PyList cs) target (Some (PyList as))) = PyList cs"
    and "aux_after (CnX circ out (PyList cs) target (Some (PyList as))) = Some (PyList as)"
    unfolding eq by (simp_all add: finish_def)
qed

text \<open>Three controls and a one-element ancilla list: one level of recursion. Three
  controls and an empty ancilla list, on a circuit without and on a circuit with a
  register named \<^verbatim>\<open>aux\<close>.\<close>

theorem CnX_list_arguments_mutated_witness:
  "raised (CnX demo_circuit [] (PyList demo_ctrls) (TQubit (Qubit ''t'' 0))
            (Some (PyList [Qubit ''a'' 0]))) = None
   \<and> ctrls_after (CnX demo_circuit [] (PyList demo_ctrls) (TQubit (Qubit ''t'' 0))
            (Some (PyList [Qubit ''a'' 0]))) = PyList [Qubit ''q'' 0, Qubit ''a'' 0]
   \<and> aux_after (CnX demo_circuit [] (PyList demo_ctrls) (TQubit (Qubit ''t'' 0))
            (Some (PyList [Qubit ''a'' 0]))) = Some (PyList [])
   \<and> raised (CnX demo_circuit [] (PyList demo_ctrls) (TQubit (Qubit ''t'' 0))
            (Some (PyList []))) = None
   \<and> ctrls_after (CnX demo_circuit [] (PyList demo_ctrls) (TQubit (Qubit ''t'' 0))
            (Some (PyList []))) = PyList [Qubit ''q'' 0, Qubit ''aux'' 0]
   \<and> raised (CnX aux_circuit [] (PyList demo_ctrls) (TQubit (Qubit ''t'' 0))
            (Some (PyList []))) = Some CircuitError
   \<and> ctrls_after (CnX aux_circuit [] (PyList demo_ctrls) (TQubit (Qubit ''t'' 0))
            (Some (PyList []))) = PyList demo_ctrls"
proof -
  have l: "2 < length demo_ctrls" by (simp add: demo_ctrls_def)
  have d: "distinct (demo_ctrls @ [target_qubit (TQubit (Qubit ''t'' 0))])"
    by (simp add: demo_ctrls_def)
  have m: "list_all (in_circuit demo_circuit) (demo_ctrls @ [target_qubit (TQubit (Qubit ''t'' 0))])"
    by (simp add: demo_ctrls_def demo_circuit_def)
  have m': "list_all (in_circuit aux_circuit) (demo_ctrls @ [target_qubit (TQubit (Qubit ''t'' 0))])"
    by (simp add: demo_ctrls_def aux_circuit_def)
  have e: "length [Qubit ''a'' 0] = length demo_ctrls - 2"
    "length ([] :: qubit list) \<noteq> length demo_ctrls - 2"
    by (simp_all add: demo_ctrls_def)
  have da: "distinct (demo_ctrls @ [Qubit ''a'' 0] @ [target_qubit (TQubit (Qubit ''t'' 0))])"
    by (simp add: demo_ctrls_def)
  have ma: "list_all (in_circuit demo_circuit) [Qubit ''a'' 0]" by (simp add: demo_circuit_def)
  have n: "''aux'' \<notin> set (register_names demo_circuit)" "''aux'' \<in> set (register_names aux_circuit)"
    by (simp_all add: demo_circuit_def aux_circuit_def register_names_def)
  have z: "demo_ctrls ! 0 = Qubit ''q'' 0" by (simp add: demo_ctrls_def)
  show ?thesis
    using CnX_list_arguments_mutated[OF l d m, where as = "[Qubit ''a'' 0]" and out = "[]"]
      CnX_list_arguments_mutated[OF l d m, where as = "[]" and out = "[]"]
      CnX_list_arguments_mutated[OF l d m', where as = "[]" and out = "[]"]
      e da ma n z by simp
qed

text \<open>
  Claim C10 as stated fails: with three controls and a \<^verbatim>\<open>clean_aux\<close> list of two qubits the
  call completes, and \<^verbatim>\<open>clean_aux\<close> comes back with both of its elements.
\<close>

theorem CnX_clean_aux_shortened_counterexample:
  "raised (CnX demo_circuit [] (PyList demo_ctrls) (TQubit (Qubit ''t'' 0))
            (Some (PyList [Qubit ''a'' 0, Qubit ''a'' 1]))) = None
   \<and> aux_after (CnX demo_circuit [] (PyList demo_ctrls) (TQubit (Qubit ''t'' 0))
            (Some (PyList [Qubit ''a'' 0, Qubit ''a'' 1])))
       = Some (PyList [Qubit ''a'' 0, Qubit ''a'' 1])
   \<and> ctrls_after (CnX demo_circuit [] (PyList demo_ctrls) (TQubit (Qubit ''t'' 0))
            (Some (PyList [Qubit ''a'' 0, Qubit ''a'' 1])))
       = PyList [Qubit ''q'' 0, Qubit ''aux'' 0]"
  by code_simp

section \<open>\<^verbatim>\<open>apply_oracle\<close>: properties\<close>

lemma more_gates_more_gates [simp]: "more_gates (more_gates circ A) B = more_gates circ (A @ B)"
  by (simp add: more_gates_def)

lemma append_gate_more_gates [simp]: "append_gate g (more_gates circ A) = more_gates circ (A @ [g])"
  by (simp add: more_gates_def append_gate_def)

lemma more_gates_Nil [simp]: "more_gates circ [] = circ"
  by (simp add: more_gates_def)

lemma gates_more_gates [simp]: "gates (more_gates circ A) = gates circ @ A"
  by (simp add: more_gates_def)

lemma append_gate_as_more: "append_gate g circ = more_gates circ [g]"
  by (simp add: more_gates_def append_gate_def)

lemma py_index_nat: "k < length xs \<Longrightarrow> py_index xs (int k) = Inr (xs ! k)"
  by (simp add: py_index_def)

lemma py_index_numeral:
  "1 \<le> length xs \<Longrightarrow> py_index xs 0 = Inr (xs ! 0)"
  "2 \<le> length xs \<Longrightarrow> py_index xs 1 = Inr (xs ! 1)"
  "3 \<le> length xs \<Longrightarrow> py_index xs 2 = Inr (xs ! 2)"
  "4 \<le> length xs \<Longrightarrow> py_index xs 3 = Inr (xs ! 3)"
  by (auto simp: py_index_def)

lemma py_index_literal:
  assumes "valid_literal f_in l"
  shows "l > 0 \<Longrightarrow> py_index f_in (l - 1) = Inr (lit_qubit f_in l)"
    and "\<not> l > 0 \<Longrightarrow> py_index f_in (- l - 1) = Inr (lit_qubit f_in l)"
  using assms by (auto simp: valid_literal_def py_index_def lit_qubit_def abs_if)

lemma valid_lit_qubit: "valid_literal f_in l \<Longrightarrow> lit_qubit f_in l \<in> set f_in"
  by (auto simp: valid_literal_def lit_qubit_def)

lemma three_Cons: "3 \<le> length xs \<Longrightarrow> \<exists>a b c rest. xs = a # b # c # rest"
  by (cases xs; cases "tl xs"; cases "tl (tl xs)") auto

lemma first_three_mem:
  assumes "3 \<le> length xs"
  shows "xs ! 0 \<in> set xs" "xs ! 1 \<in> set xs" "xs ! 2 \<in> set xs"
proof -
  from three_Cons[OF assms] obtain a b c rest where "xs = a # b # c # rest" by blast
  then show "xs ! 0 \<in> set xs" "xs ! 1 \<in> set xs" "xs ! 2 \<in> set xs" by simp_all
qed

lemma first_three_distinct:
  assumes "3 \<le> length xs" and "distinct xs"
  shows "xs ! 0 \<noteq> xs ! 1" "xs ! 0 \<noteq> xs ! 2" "xs ! 1 \<noteq> xs ! 2"
proof -
  from three_Cons[OF assms(1)] obtain a b c rest where "xs = a # b # c # rest" by blast
  with assms(2) show "xs ! 0 \<noteq> xs ! 1" "xs ! 0 \<noteq> xs ! 2" "xs ! 1 \<noteq> xs ! 2" by auto
qed

lemma aux_facts:
  assumes "distinct (f_in @ aux)" and "k < nc" and "nc < length aux"
  shows "aux ! k \<notin> set f_in" "aux ! nc \<notin> set f_in" "aux ! k \<noteq> aux ! nc"
    "set aux \<inter> set f_in = {}" "distinct f_in"
proof -
  have k: "k < length aux" using assms(2,3) by simp
  have d: "distinct aux" "set f_in \<inter> set aux = {}" "distinct f_in" using assms(1) by auto
  have "aux ! k \<in> set aux" "aux ! nc \<in> set aux" using k assms(3) by simp_all
  then show "aux ! k \<notin> set f_in" "aux ! nc \<notin> set f_in" using d(2) by auto
  show "aux ! k \<noteq> aux ! nc" using d(1) k assms(2,3) by (simp add: nth_eq_iff_index_eq)
  show "set aux \<inter> set f_in = {}" using d(2) by auto
  show "distinct f_in" by (rule d(3))
qed

lemma circ_x_ok: "circ_x circ (Inr q) = Inr (more_gates circ [X_gate q])"
  by (simp add: circ_x_def and_then_def append_checked_def append_gate_as_more)

lemma circ_cx_ok:
  "c \<noteq> t \<Longrightarrow> circ_cx circ (Inr c) (Inr t) = Inr (more_gates circ [CX_gate c t])"
  by (simp add: circ_cx_def and_then_def append_checked_def append_gate_as_more)

lemma circ_ccx_ok:
  "a \<noteq> b \<Longrightarrow> a \<noteq> t \<Longrightarrow> b \<noteq> t \<Longrightarrow>
   circ_ccx circ (Inr a) (Inr b) (Inr t) = Inr (more_gates circ [CCX_gate a b t])"
  by (simp add: circ_ccx_def and_then_def append_checked_def append_gate_as_more)

lemma literal_step_ok:
  assumes "valid_literal f_in l" and "k < length aux" and "aux ! k \<notin> set f_in"
  shows "literal_step f_in aux k circ l = Inr (more_gates circ (lit_gates f_in (aux ! k) l))"
proof -
  have ne: "lit_qubit f_in l \<noteq> aux ! k" using valid_lit_qubit[OF assms(1)] assms(3) by auto
  show ?thesis
    using assms(2) ne
    by (simp add: literal_step_def py_index_literal[OF assms(1)] py_index_nat circ_x_ok circ_cx_ok
        and_then_def lit_gates_def)
qed

lemma unflip_step_ok:
  assumes "valid_literal f_in l"
  shows "unflip_step f_in circ l = Inr (more_gates circ (unflip_gates f_in l))"
  using assms
  by (simp add: unflip_step_def circ_x_ok py_index_literal unflip_gates_def)

lemma for_each_literal_ok:
  assumes "list_all (valid_literal f_in) clause" and "k < length aux" and "aux ! k \<notin> set f_in"
  shows "for_each (literal_step f_in aux k) clause circ =
           Inr (more_gates circ (concat (map (lit_gates f_in (aux ! k)) clause)))"
  using assms
  by (induction clause arbitrary: circ) (simp_all add: literal_step_ok and_then_def)

lemma for_each_unflip_ok:
  assumes "list_all (valid_literal f_in) clause"
  shows "for_each (unflip_step f_in) clause circ =
           Inr (more_gates circ (concat (map (unflip_gates f_in) clause)))"
  using assms
  by (induction clause arbitrary: circ) (simp_all add: unflip_step_ok and_then_def)

lemma conjunction_gates_ok:
  assumes "3 \<le> length f_in" and "distinct (f_in @ aux)" and "k < nc" and "nc < length aux"
  shows "f_in ! 0 \<noteq> f_in ! 1" "f_in ! 0 \<noteq> aux ! nc" "f_in ! 1 \<noteq> aux ! nc"
    "f_in ! 2 \<noteq> aux ! nc" "f_in ! 2 \<noteq> aux ! k" "aux ! nc \<noteq> aux ! k"
proof -
  note af = aux_facts[OF assms(2,3,4)]
  note mem = first_three_mem[OF assms(1)]
  show "f_in ! 0 \<noteq> f_in ! 1" using first_three_distinct[OF assms(1) af(5)] by simp
  show "f_in ! 0 \<noteq> aux ! nc" "f_in ! 1 \<noteq> aux ! nc" "f_in ! 2 \<noteq> aux ! nc" "f_in ! 2 \<noteq> aux ! k"
    using mem af(1,2) by auto
  show "aux ! nc \<noteq> aux ! k" using af(3) by simp
qed

lemma clause_block_ok:
  assumes "3 \<le> length f_in" and "distinct (f_in @ aux)"
      and "fst kc < nc" and "nc < length aux"
      and "list_all (valid_literal f_in) (snd kc)"
  shows "clause_block f_in aux nc circ kc = Inr (more_gates circ (block_gates f_in aux nc kc))"
proof -
  obtain k clause where kc: "kc = (k, clause)" by (cases kc)
  have k: "k < nc" and v: "list_all (valid_literal f_in) clause" using assms(3,5) kc by simp_all
  have kl: "k < length aux" using k assms(4) by simp
  note af = aux_facts[OF assms(2) k assms(4)]
  note ne = conjunction_gates_ok[OF assms(1,2) k assms(4)]
  show ?thesis
    unfolding kc
    using assms(1,4) kl ne
    by (simp add: clause_block_def for_each_literal_ok[OF v kl af(1)] for_each_unflip_ok[OF v]
        and_then_def circ_ccx_ok py_index_numeral py_index_nat block_gates_def append_gate_as_more)
qed

lemma blocks_ok:
  assumes "3 \<le> length f_in" and "distinct (f_in @ aux)" and "nc < length aux"
      and "list_all (\<lambda>kc. fst kc < nc \<and> list_all (valid_literal f_in) (snd kc)) kcs"
  shows "for_each (clause_block f_in aux nc) kcs circ =
           Inr (more_gates circ (concat (map (block_gates f_in aux nc) kcs)))"
  using assms(4)
  by (induction kcs arbitrary: circ)
    (simp_all add: clause_block_ok[OF assms(1,2) _ assms(3)] and_then_def)

lemma fst_enumerate: "kc \<in> set (enumerate xs) \<Longrightarrow> fst kc < length xs \<and> snd kc = xs ! fst kc"
  by (auto simp: enumerate_def in_set_zip)

lemma enumerate_ok:
  assumes "list_all (list_all P) expression"
  shows "list_all (\<lambda>kc. fst kc < length expression \<and> list_all P (snd kc)) (enumerate expression)"
proof -
  have "fst kc < length expression \<and> list_all P (snd kc)"
    if "kc \<in> set (enumerate expression)" for kc
  proof -
    from fst_enumerate[OF that] have i: "fst kc < length expression" "snd kc = expression ! fst kc"
      by simp_all
    then have "expression ! fst kc \<in> set expression" by simp
    with assms i show ?thesis by (auto simp: list_all_iff)
  qed
  then show ?thesis by (simp add: list_all_iff)
qed

lemma final_facts:
  assumes "distinct (f_out @ aux)" and "1 \<le> length f_out"
  shows "i < length aux \<Longrightarrow> aux ! i \<noteq> f_out ! 0"
    and "i < length aux \<Longrightarrow> j < length aux \<Longrightarrow> i \<noteq> j \<Longrightarrow> aux ! i \<noteq> aux ! j"
proof -
  have o: "f_out ! 0 \<in> set f_out" using assms(2) by (cases f_out) auto
  have d: "distinct aux" "set f_out \<inter> set aux = {}" using assms(1) by auto
  show "aux ! i \<noteq> f_out ! 0" if "i < length aux"
  proof -
    have "aux ! i \<in> set aux" using that by (rule nth_mem)
    with o d(2) show ?thesis by auto
  qed
  show "i < length aux \<Longrightarrow> j < length aux \<Longrightarrow> i \<noteq> j \<Longrightarrow> aux ! i \<noteq> aux ! j"
    using d(1) by (simp add: nth_eq_iff_index_eq)
qed

text \<open>The statements between the two passes over the clauses.\<close>

lemma final_step_ok:
  assumes "distinct (f_out @ aux)" and "1 \<le> length f_out" and "nc < length aux"
  shows "(if nc = 1 then circ_cx c1 (py_index aux 0) (py_index f_out 0)
          else if nc = 2 then circ_ccx c1 (py_index aux 0) (py_index aux 1) (py_index f_out 0)
          else if nc = 3 then
            and_then (circ_ccx c1 (py_index aux 0) (py_index aux 1) (py_index aux (int nc))) (\<lambda>d1.
            and_then (circ_ccx d1 (py_index aux 2) (py_index aux (int nc)) (py_index f_out 0)) (\<lambda>d2.
            circ_ccx d2 (py_index aux 0) (py_index aux 1) (py_index aux (int nc))))
          else Inl ValueError)
         = (if nc \<in> {1, 2, 3} then Inr (more_gates c1 (final_gates f_out aux nc))
            else Inl ValueError)"
proof -
  note ff = final_facts[OF assms(1,2)]
  consider "nc = 1" | "nc = 2" | "nc = 3" | "nc \<notin> {1, 2, 3}" by auto
  then show ?thesis
  proof cases
    case 1
    then have "0 < length aux" using assms(3) by arith
    then have "aux ! 0 \<noteq> f_out ! 0" by (rule ff(1))
    then show ?thesis using 1 assms(2,3)
      by (simp add: py_index_numeral circ_cx_ok final_gates_def)
  next
    case 2
    then have l: "0 < length aux" "1 < length aux" using assms(3) by arith+
    have "aux ! 0 \<noteq> f_out ! 0" "aux ! 1 \<noteq> f_out ! 0" "aux ! 0 \<noteq> aux ! 1"
      using ff(1)[OF l(1)] ff(1)[OF l(2)] ff(2)[OF l(1) l(2)] by simp_all
    then show ?thesis using 2 assms(2,3)
      by (simp add: py_index_numeral circ_ccx_ok final_gates_def)
  next
    case 3
    then have l: "0 < length aux" "1 < length aux" "2 < length aux" "3 < length aux"
      using assms(3) by arith+
    have "aux ! 0 \<noteq> aux ! 1" "aux ! 0 \<noteq> aux ! 3" "aux ! 1 \<noteq> aux ! 3"
      "aux ! 2 \<noteq> aux ! 3" "aux ! 2 \<noteq> f_out ! 0" "aux ! 3 \<noteq> f_out ! 0"
      using ff(2)[OF l(1) l(2)] ff(2)[OF l(1) l(4)] ff(2)[OF l(2) l(4)] ff(2)[OF l(3) l(4)]
        ff(1)[OF l(3)] ff(1)[OF l(4)] by simp_all
    then show ?thesis using 3 assms(2,3)
      by (simp add: py_index_numeral circ_ccx_ok final_gates_def and_then_def)
  next
    case 4
    then show ?thesis by simp
  qed
qed

lemma apply_oracle_ok:
  assumes "3 \<le> length f_in" and "1 \<le> length f_out" and "length expression < length aux"
      and "distinct (f_in @ f_out @ aux)"
      and "list_all (list_all (valid_literal f_in)) expression"
  shows "apply_oracle circ f_in f_out aux n expression =
           (if length expression \<in> {1, 2, 3} then
              Inr (more_gates circ
                (concat (map (block_gates f_in aux (length expression)) (enumerate expression))
                 @ final_gates f_out aux (length expression) @ [Barrier_all]
                 @ concat (map (block_gates f_in aux (length expression)) (enumerate expression))))
            else Inl ValueError)"
proof -
  have dfa: "distinct (f_in @ aux)" and dfo: "distinct (f_out @ aux)" using assms(4) by auto
  have b: "for_each (clause_block f_in aux (length expression)) (enumerate expression) c =
             Inr (more_gates c (concat (map (block_gates f_in aux (length expression))
                                         (enumerate expression))))" for c
    using blocks_ok[OF assms(1) dfa assms(3) enumerate_ok[OF assms(5)]] .
  have "apply_oracle circ f_in f_out aux n expression =
          and_then
            (if length expression \<in> {1, 2, 3} then
               Inr (more_gates
                      (more_gates circ (concat (map (block_gates f_in aux (length expression))
                                                 (enumerate expression))))
                      (final_gates f_out aux (length expression)))
             else Inl ValueError)
            (\<lambda>c2. for_each (clause_block f_in aux (length expression)) (enumerate expression)
                    (append_gate Barrier_all c2))"
    unfolding apply_oracle_def Let_def b final_step_ok[OF dfo assms(2,3), symmetric]
    by (simp add: and_then_def)
  then show ?thesis by (simp add: b and_then_def)
qed

text \<open>The same steps when a literal may be 0: all that is needed of a literal for the call
  to go through is that its index expression is within \<^verbatim>\<open>f_in\<close>.\<close>

lemma py_index_indexable:
  assumes "indexable_literal f_in l" and "1 \<le> length f_in"
  shows "\<exists>q\<in>set f_in. py_index f_in (if l > 0 then l - 1 else - l - 1) = Inr q"
proof -
  consider "l > 0" | "l = 0" | "l < 0" by linarith
  then show ?thesis
  proof cases
    case 1
    then have "nat (l - 1) < length f_in" using assms(1) by (simp add: indexable_literal_def)
    then have "f_in ! nat (l - 1) \<in> set f_in" by (rule nth_mem)
    then show ?thesis using 1 assms(1) by (simp add: py_index_def indexable_literal_def)
  next
    case 2
    have "f_in ! (length f_in - 1) \<in> set f_in" using assms(2) by simp
    moreover have "nat (int (length f_in) + - 1) = length f_in - 1" using assms(2) by simp
    ultimately show ?thesis using 2 assms(2) by (simp add: py_index_def)
  next
    case 3
    then have "nat (- l - 1) < length f_in" using assms(1) by (simp add: indexable_literal_def)
    then have "f_in ! nat (- l - 1) \<in> set f_in" by (rule nth_mem)
    then show ?thesis using 3 assms(1) by (simp add: py_index_def indexable_literal_def)
  qed
qed

lemma literal_step_completes:
  assumes "indexable_literal f_in l" and "1 \<le> length f_in"
      and "k < length aux" and "aux ! k \<notin> set f_in"
  shows "\<exists>circ'. literal_step f_in aux k circ l = Inr circ'"
proof -
  from py_index_indexable[OF assms(1,2)] obtain q where
    q: "q \<in> set f_in" "py_index f_in (if l > 0 then l - 1 else - l - 1) = Inr q" by blast
  have ne: "q \<noteq> aux ! k" using q(1) assms(4) by auto
  show ?thesis
  proof (cases "l > 0")
    case True
    then have "py_index f_in (l - 1) = Inr q" using q(2) by simp
    then show ?thesis using True ne assms(3)
      by (simp add: literal_step_def py_index_nat circ_cx_ok)
  next
    case False
    then have "py_index f_in (- l - 1) = Inr q" using q(2) by simp
    then show ?thesis using False ne assms(3)
      by (simp add: literal_step_def py_index_nat circ_x_ok circ_cx_ok and_then_def)
  qed
qed

lemma unflip_step_completes:
  assumes "indexable_literal f_in l" and "1 \<le> length f_in"
  shows "\<exists>circ'. unflip_step f_in circ l = Inr circ'"
proof -
  from py_index_indexable[OF assms(1,2)] obtain q where
    q: "py_index f_in (if l > 0 then l - 1 else - l - 1) = Inr q" by blast
  show ?thesis
  proof (cases "l < 0")
    case True
    then have "py_index f_in (- l - 1) = Inr q" using q by simp
    then show ?thesis using True by (simp add: unflip_step_def circ_x_ok)
  next
    case False
    then show ?thesis by (simp add: unflip_step_def)
  qed
qed

lemma for_each_completes:
  assumes "\<And>st x. x \<in> set xs \<Longrightarrow> \<exists>st'. body st x = Inr st'"
  shows "\<exists>st'. for_each body xs st = Inr st'"
  using assms
proof (induction xs arbitrary: st)
  case Nil
  show ?case by simp
next
  case (Cons x xs)
  have "\<exists>st1. body st x = Inr st1" by (rule Cons.prems) simp
  then obtain st1 where 1: "body st x = Inr st1" by blast
  have "\<exists>st'. for_each body xs st1 = Inr st'"
  proof (rule Cons.IH)
    fix st2 y
    assume "y \<in> set xs"
    then show "\<exists>st'. body st2 y = Inr st'" by (intro Cons.prems) simp
  qed
  then show ?case using 1 by (simp add: and_then_def)
qed

lemma clause_block_completes:
  assumes "3 \<le> length f_in" and "distinct (f_in @ aux)" and "k < nc" and "nc < length aux"
      and "list_all (indexable_literal f_in) clause"
  shows "\<exists>circ'. clause_block f_in aux nc circ (k, clause) = Inr circ'"
proof -
  have kl: "k < length aux" using assms(3,4) by simp
  have one: "1 \<le> length f_in" using assms(1) by simp
  note af = aux_facts[OF assms(2,3,4)]
  note ne = conjunction_gates_ok[OF assms(1,2,3,4)]
  have lit: "indexable_literal f_in l" if "l \<in> set clause" for l
    using that assms(5) by (simp add: list_all_iff)
  have "\<exists>c1. for_each (literal_step f_in aux k) clause circ = Inr c1"
    by (rule for_each_completes) (rule literal_step_completes[OF lit one kl af(1)])
  then obtain c1 where c1: "for_each (literal_step f_in aux k) clause circ = Inr c1" by blast
  have un: "\<exists>c5. for_each (unflip_step f_in) clause c4 = Inr c5" for c4
    by (rule for_each_completes) (rule unflip_step_completes[OF lit one])
  let ?c4 = "more_gates c1 [Barrier f_in, CCX_gate (f_in ! 0) (f_in ! 1) (aux ! nc),
                CCX_gate (f_in ! 2) (aux ! nc) (aux ! k), Barrier f_in,
                CCX_gate (f_in ! 0) (f_in ! 1) (aux ! nc)]"
  have "clause_block f_in aux nc circ (k, clause) =
          and_then (for_each (unflip_step f_in) clause ?c4) (\<lambda>c5. Inr (append_gate Barrier_all c5))"
    using assms(1,4) kl ne
    by (simp add: clause_block_def c1 and_then_def circ_ccx_ok py_index_numeral py_index_nat
        append_gate_as_more)
  moreover from un[of ?c4] obtain c5 where "for_each (unflip_step f_in) clause ?c4 = Inr c5"
    by blast
  ultimately show ?thesis by (simp add: and_then_def)
qed

lemma blocks_complete:
  assumes "3 \<le> length f_in" and "distinct (f_in @ aux)" and "length expression < length aux"
      and "list_all (list_all (indexable_literal f_in)) expression"
  shows "\<exists>circ'. for_each (clause_block f_in aux (length expression)) (enumerate expression) circ
                  = Inr circ'"
proof (rule for_each_completes)
  fix st kc
  assume "kc \<in> set (enumerate expression)"
  then have "fst kc < length expression \<and> list_all (indexable_literal f_in) (snd kc)"
    using enumerate_ok[OF assms(4)] by (simp add: list_all_iff)
  then show "\<exists>st'. clause_block f_in aux (length expression) st kc = Inr st'"
    using clause_block_completes[OF assms(1,2) _ assms(3), of "fst kc" "snd kc" st] by simp
qed

text \<open>
  Claim C3, amended. Let the registers be large enough (\<^verbatim>\<open>f_in\<close> of at least three qubits,
  \<^verbatim>\<open>f_out\<close> of at least one, \<^verbatim>\<open>aux\<close> of more qubits than there are clauses), let their
  qubits be pairwise distinct qubits of registers of the circuit, and let every literal
  \<open>l\<close> have \<open>|l| \<le> len(f_in)\<close>, so that no index expression is out of range (the literal 0
  is allowed: it indexes \<^verbatim>\<open>f_in[-1]\<close>). Then \<^verbatim>\<open>apply_oracle\<close> completes without raising
  when the expression has 1, 2 or 3 clauses and raises ValueError otherwise, that is,
  when it has more than 3 clauses or none.
\<close>

theorem apply_oracle_raises_ValueError:
  assumes "3 \<le> length f_in" and "1 \<le> length f_out" and "length expression < length aux"
      and "distinct (f_in @ f_out @ aux)"
      and "list_all (in_circuit circ) (f_in @ f_out @ aux)"
      and "list_all (list_all (indexable_literal f_in)) expression"
  shows "(length expression \<in> {1, 2, 3} \<longrightarrow> (\<exists>circ'. apply_oracle circ f_in f_out aux n expression = Inr circ'))
       \<and> (length expression \<notin> {1, 2, 3} \<longrightarrow> apply_oracle circ f_in f_out aux n expression = Inl ValueError)"
proof -
  have dfa: "distinct (f_in @ aux)" and dfo: "distinct (f_out @ aux)" using assms(4) by auto
  note blocks = blocks_complete[OF assms(1) dfa assms(3) assms(6)]
  from blocks[of circ] obtain c1 where
    c1: "for_each (clause_block f_in aux (length expression)) (enumerate expression) circ = Inr c1"
    by blast
  have eq: "apply_oracle circ f_in f_out aux n expression =
          and_then
            (if length expression \<in> {1, 2, 3} then
               Inr (more_gates c1 (final_gates f_out aux (length expression)))
             else Inl ValueError)
            (\<lambda>c2. for_each (clause_block f_in aux (length expression)) (enumerate expression)
                    (append_gate Barrier_all c2))"
    unfolding apply_oracle_def Let_def c1 final_step_ok[OF dfo assms(2,3), symmetric]
    by (simp add: and_then_def)
  show ?thesis
  proof (cases "length expression \<in> {1, 2, 3}")
    case True
    then show ?thesis
      using blocks[of "append_gate Barrier_all (more_gates c1 (final_gates f_out aux (length expression)))"]
      unfolding eq by (simp add: and_then_def)
  next
    case False
    then show ?thesis unfolding eq by (simp add: and_then_def)
  qed
qed

text \<open>The notebook's one-clause example completes, and so does a clause with the literal
  0; an expression of four clauses raises.\<close>

theorem apply_oracle_raises_ValueError_witness:
  "(\<exists>circ'. apply_oracle (oracle_circuit 1) (QuantumRegister 3 ''x'') (QuantumRegister 1 ''out'')
              (QuantumRegister 2 ''aux'') 3 [[1, 2, -3]] = Inr circ')
   \<and> (\<exists>circ'. apply_oracle (oracle_circuit 1) (QuantumRegister 3 ''x'') (QuantumRegister 1 ''out'')
              (QuantumRegister 2 ''aux'') 3 [[1, 0, -3]] = Inr circ')
   \<and> apply_oracle (oracle_circuit 4) (QuantumRegister 3 ''x'') (QuantumRegister 1 ''out'')
              (QuantumRegister 5 ''aux'') 3 [[1, 2, -3], [-1, -2, -3], [-1, 2, 3], [1, 2, 3]]
         = Inl ValueError"
proof -
  have r3: "QuantumRegister 3 ''x'' = [Qubit ''x'' 0, Qubit ''x'' 1, Qubit ''x'' 2]"
    by (simp add: QuantumRegister_def upt_rec)
  have r1: "QuantumRegister 1 ''out'' = [Qubit ''out'' 0]"
    "QuantumRegister (Suc 0) ''out'' = [Qubit ''out'' 0]"
    by (simp_all add: QuantumRegister_def)
  have r2: "QuantumRegister 2 ''aux'' = [Qubit ''aux'' 0, Qubit ''aux'' 1]"
    by (simp add: QuantumRegister_def upt_rec)
  have r5: "QuantumRegister 5 ''aux'' =
              [Qubit ''aux'' 0, Qubit ''aux'' 1, Qubit ''aux'' 2, Qubit ''aux'' 3, Qubit ''aux'' 4]"
    by (simp add: QuantumRegister_def upt_rec)
  have d: "distinct (QuantumRegister 3 ''x'' @ QuantumRegister 1 ''out'' @ QuantumRegister 2 ''aux'')"
    "distinct (QuantumRegister 3 ''x'' @ QuantumRegister 1 ''out'' @ QuantumRegister 5 ''aux'')"
    by (simp_all add: r3 r1 r2 r5)
  have m: "list_all (in_circuit (oracle_circuit 1))
             (QuantumRegister 3 ''x'' @ QuantumRegister 1 ''out'' @ QuantumRegister 2 ''aux'')"
    "list_all (in_circuit (oracle_circuit 4))
             (QuantumRegister 3 ''x'' @ QuantumRegister 1 ''out'' @ QuantumRegister 5 ''aux'')"
    by (simp_all add: r3 r1 r2 r5 oracle_circuit_def)
  have v: "list_all (list_all (indexable_literal (QuantumRegister 3 ''x''))) [[1, 2, -3]]"
    "list_all (list_all (indexable_literal (QuantumRegister 3 ''x''))) [[1, 0, -3]]"
    "list_all (list_all (indexable_literal (QuantumRegister 3 ''x'')))
       [[1, 2, -3], [-1, -2, -3], [-1, 2, 3], [1, 2, 3]]"
    by (simp_all add: indexable_literal_def r3)
  have l: "3 \<le> length (QuantumRegister 3 ''x'')" "1 \<le> length (QuantumRegister 1 ''out'')"
    "length [[1, 2, -3 :: int]] < length (QuantumRegister 2 ''aux'')"
    "length [[1, 0, -3 :: int]] < length (QuantumRegister 2 ''aux'')"
    "length [[1, 2, -3], [-1, -2, -3], [-1, 2, 3], [1, 2, 3 :: int]] < length (QuantumRegister 5 ''aux'')"
    by (simp_all add: r3 r1 r2 r5)
  show ?thesis
    using apply_oracle_raises_ValueError[OF l(1) l(2) l(3) d(1) m(1) v(1), of 3]
      apply_oracle_raises_ValueError[OF l(1) l(2) l(4) d(1) m(1) v(2), of 3]
      apply_oracle_raises_ValueError[OF l(1) l(2) l(5) d(2) m(2) v(3), of 3]
    by simp
qed

text \<open>
  Claim C3 as stated fails: the empty expression does not have more than 3 clauses, and
  \<^verbatim>\<open>apply_oracle\<close> raises ValueError on it.
\<close>

theorem apply_oracle_empty_expression_counterexample:
  "apply_oracle (oracle_circuit 0) (QuantumRegister 3 ''x'') (QuantumRegister 1 ''out'')
      (QuantumRegister 1 ''aux'') 3 [] = Inl ValueError
   \<and> \<not> 3 < length ([] :: int list list)"
  by (simp add: apply_oracle_def enumerate_def and_then_def)

text \<open>Registers that overlap: with \<^verbatim>\<open>aux\<close> the same register as \<^verbatim>\<open>f_in\<close> the first
  \<^verbatim>\<open>cx\<close> is refused, whatever the number of clauses.\<close>

lemma apply_oracle_overlapping_registers:
  "apply_oracle (oracle_circuit 4) (QuantumRegister 5 ''aux'') (QuantumRegister 1 ''out'')
      (QuantumRegister 5 ''aux'') 3 [[1, 2, -3], [-1, -2, -3], [-1, 2, 3], [1, 2, 3]]
     = Inl CircuitError"
  by code_simp

subsection \<open>The gates of one clause on basis states\<close>

lemma flip_step_other: "q \<noteq> lit_qubit f_in l \<Longrightarrow> flip_step f_in l s q = s q"
  by (simp add: flip_step_def)

lemma flip_step_upd:
  "ak \<noteq> lit_qubit f_in l \<Longrightarrow> flip_step f_in l (s(ak := v)) = (flip_step f_in l s)(ak := v)"
  by (auto simp: flip_step_def fun_eq_iff)

lemma flipped_upd_away:
  "ak \<notin> lit_qubit f_in ` set ls \<Longrightarrow>
   flipped f_in ls (s(ak := v)) = (flipped f_in ls s)(ak := v)"
proof (induction ls arbitrary: s)
  case Nil
  show ?case by simp
next
  case (Cons l ls)
  then have ne: "ak \<noteq> lit_qubit f_in l" and away: "ak \<notin> lit_qubit f_in ` set ls" by auto
  have "flipped f_in (l # ls) (s(ak := v)) = flipped f_in ls ((flip_step f_in l s)(ak := v))"
    by (simp add: flip_step_upd[OF ne])
  also have "\<dots> = (flipped f_in ls (flip_step f_in l s))(ak := v)"
    by (rule Cons.IH[OF away])
  finally show ?case by (simp only: flipped.simps)
qed

lemma xor_reads_upd_away:
  "ak \<notin> lit_qubit f_in ` set ls \<Longrightarrow> xor_reads f_in ls (s(ak := v)) = xor_reads f_in ls s"
proof (induction ls arbitrary: s)
  case Nil
  show ?case by simp
next
  case (Cons l ls)
  then have ne: "ak \<noteq> lit_qubit f_in l" and away: "ak \<notin> lit_qubit f_in ` set ls" by auto
  have ih: "xor_reads f_in ls ((flip_step f_in l s)(ak := v)) = xor_reads f_in ls (flip_step f_in l s)"
    by (rule Cons.IH[OF away])
  have rd: "((flip_step f_in l s)(ak := v)) (lit_qubit f_in l) = flip_step f_in l s (lit_qubit f_in l)"
    using ne by (simp only: fun_upd_apply) simp
  show ?case by (simp only: xor_reads.simps flip_step_upd[OF ne] ih rd)
qed

lemma outside_away:
  "ak \<notin> set f_in \<Longrightarrow> list_all (valid_literal f_in) ls \<Longrightarrow> ak \<notin> lit_qubit f_in ` set ls"
  using valid_lit_qubit by (fastforce simp: list_all_iff)

lemma flipped_upd:
  "ak \<notin> set f_in \<Longrightarrow> list_all (valid_literal f_in) ls \<Longrightarrow>
   flipped f_in ls (s(ak := v)) = (flipped f_in ls s)(ak := v)"
  by (rule flipped_upd_away) (rule outside_away)

lemma xor_reads_upd:
  "ak \<notin> set f_in \<Longrightarrow> list_all (valid_literal f_in) ls \<Longrightarrow>
   xor_reads f_in ls (s(ak := v)) = xor_reads f_in ls s"
  by (rule xor_reads_upd_away) (rule outside_away)

lemma flipped_outside:
  "q \<notin> set f_in \<Longrightarrow> list_all (valid_literal f_in) ls \<Longrightarrow> flipped f_in ls s q = s q"
proof (induction ls arbitrary: s)
  case Nil
  show ?case by simp
next
  case (Cons l ls)
  then have "q \<noteq> lit_qubit f_in l" using valid_lit_qubit by fastforce
  then show ?case using Cons by (simp add: flip_step_other)
qed

lemma run_lit_gates:
  assumes "ak \<noteq> lit_qubit f_in l"
  shows "run (lit_gates f_in ak l) s =
           Some ((flip_step f_in l s)(ak := (s ak \<noteq> flip_step f_in l s (lit_qubit f_in l))))"
  using assms by (auto simp: lit_gates_def flip_step_def fun_eq_iff)

lemma run_literals:
  assumes "ak \<notin> set f_in" and "list_all (valid_literal f_in) ls"
  shows "run (concat (map (lit_gates f_in ak) ls)) s =
           Some ((flipped f_in ls s)(ak := (s ak \<noteq> xor_reads f_in ls s)))"
  using assms(2)
proof (induction ls arbitrary: s)
  case Nil
  show ?case by simp
next
  case (Cons l ls)
  have ne: "ak \<noteq> lit_qubit f_in l" using Cons.prems assms(1) valid_lit_qubit by fastforce
  have v: "list_all (valid_literal f_in) ls" using Cons.prems by simp
  let ?s' = "flip_step f_in l s"
  let ?r = "?s' (lit_qubit f_in l)"
  have "run (concat (map (lit_gates f_in ak) (l # ls))) s
          = run (concat (map (lit_gates f_in ak) ls)) (?s'(ak := (s ak \<noteq> ?r)))"
    by (simp add: run_append run_lit_gates[OF ne])
  also have "\<dots> = Some ((flipped f_in ls (?s'(ak := (s ak \<noteq> ?r))))
                        (ak := ((?s'(ak := (s ak \<noteq> ?r))) ak \<noteq> xor_reads f_in ls (?s'(ak := (s ak \<noteq> ?r))))))"
    by (rule Cons.IH[OF v])
  also have "\<dots> = Some ((flipped f_in (l # ls) s)(ak := (s ak \<noteq> xor_reads f_in (l # ls) s)))"
  proof -
    have b: "((s ak \<noteq> ?r) \<noteq> xor_reads f_in ls ?s') = (s ak \<noteq> (?r \<noteq> xor_reads f_in ls ?s'))"
      by blast
    show ?thesis
      unfolding flipped_upd[OF assms(1) v] xor_reads_upd[OF assms(1) v]
      using b by simp
  qed
  finally show ?case .
qed

lemma flip_step_twice: "flip_step f_in l (flip_step f_in l s) = s"
  by (auto simp: flip_step_def fun_eq_iff)

lemma flip_step_commute:
  "flip_step f_in l (flip_step f_in l' s) = flip_step f_in l' (flip_step f_in l s)"
  by (auto simp: flip_step_def fun_eq_iff)

lemma flip_flipped_commute:
  "flip_step f_in l (flipped f_in ls s) = flipped f_in ls (flip_step f_in l s)"
proof (induction ls arbitrary: s)
  case Nil
  show ?case by simp
next
  case (Cons l' ls)
  have "flip_step f_in l (flipped f_in (l' # ls) s)
          = flipped f_in ls (flip_step f_in l (flip_step f_in l' s))"
    by (simp only: flipped.simps Cons.IH)
  then show ?case by (simp only: flipped.simps flip_step_commute[of f_in l l'])
qed

lemma flipped_twice: "flipped f_in ls (flipped f_in ls s) = s"
proof (induction ls arbitrary: s)
  case Nil
  show ?case by simp
next
  case (Cons l ls)
  have "flipped f_in (l # ls) (flipped f_in (l # ls) s)
          = flipped f_in ls (flip_step f_in l (flipped f_in ls (flip_step f_in l s)))"
    by (simp only: flipped.simps)
  also have "\<dots> = flipped f_in ls (flipped f_in ls (flip_step f_in l (flip_step f_in l s)))"
    by (simp only: flip_flipped_commute)
  also have "\<dots> = s"
    by (simp only: Cons.IH flip_step_twice)
  finally show ?case .
qed

lemma run_unflip_gates:
  assumes "valid_literal f_in l"
  shows "run (unflip_gates f_in l) s = Some (flip_step f_in l s)"
  using assms by (auto simp: unflip_gates_def flip_step_def valid_literal_def)

lemma run_unflips:
  assumes "list_all (valid_literal f_in) ls"
  shows "run (concat (map (unflip_gates f_in) ls)) s = Some (flipped f_in ls s)"
  using assms
  by (induction ls arbitrary: s) (simp_all add: run_append run_unflip_gates)

lemma run_conjunction:
  assumes "f0 \<noteq> f1" "f0 \<noteq> f2" "f1 \<noteq> f2" "anc \<noteq> f0" "anc \<noteq> f1" "anc \<noteq> f2"
      and "ak \<noteq> f0" "ak \<noteq> f1" "ak \<noteq> f2" "ak \<noteq> anc" and "\<not> s anc"
  shows "run [Barrier f_in, CCX_gate f0 f1 anc, CCX_gate f2 anc ak, Barrier f_in,
              CCX_gate f0 f1 anc] s
           = Some (s(ak := (s ak \<noteq> (s f0 \<and> s f1 \<and> s f2))))"
  using assms by (auto simp: fun_eq_iff)

lemma code_g_upd:
  assumes "a \<notin> set f_in" and "list_all (valid_literal f_in) clause" and "3 \<le> length f_in"
  shows "code_g f_in (s(a := v)) clause = code_g f_in s clause"
proof -
  have "f_in ! 0 \<in> set f_in" "f_in ! 1 \<in> set f_in" "f_in ! 2 \<in> set f_in"
    using assms(3) by (rule first_three_mem)+
  then have ne: "f_in ! 0 \<noteq> a" "f_in ! 1 \<noteq> a" "f_in ! 2 \<noteq> a" using assms(1) by auto
  show ?thesis
    unfolding code_g_def flipped_upd[OF assms(1,2)] xor_reads_upd[OF assms(1,2)]
    using ne by (simp only: fun_upd_apply) simp
qed

lemma run_three_parts:
  assumes "run A s = Some s1" and "run B s1 = Some s2" and "run C s2 = Some s3"
  shows "run (A @ B @ C @ [Barrier_all]) s = Some s3"
  unfolding run_append using assms by simp

lemma run_block:
  assumes "3 \<le> length f_in" and "distinct f_in"
      and "ak \<notin> set f_in" and "anc \<notin> set f_in" and "ak \<noteq> anc"
      and "list_all (valid_literal f_in) clause"
      and "\<not> s anc"
      and "aux ! k = ak" and "aux ! nc = anc"
  shows "run (block_gates f_in aux nc (k, clause)) s
           = Some (s(ak := (s ak \<noteq> code_g f_in s clause)))"
proof -
  let ?f0 = "f_in ! 0" and ?f1 = "f_in ! 1" and ?f2 = "f_in ! 2"
  let ?F = "flipped f_in clause s"
  let ?x = "xor_reads f_in clause s"
  let ?s1 = "?F(ak := (s ak \<noteq> ?x))"
  have mem: "?f0 \<in> set f_in" "?f1 \<in> set f_in" "?f2 \<in> set f_in"
    using assms(1) by (rule first_three_mem)+
  have d: "?f0 \<noteq> ?f1" "?f0 \<noteq> ?f2" "?f1 \<noteq> ?f2"
    using assms(1,2) by (rule first_three_distinct)+
  have o: "anc \<noteq> ?f0" "anc \<noteq> ?f1" "anc \<noteq> ?f2" "ak \<noteq> ?f0" "ak \<noteq> ?f1" "ak \<noteq> ?f2"
    using mem assms(3,4) by auto
  have r1: "run (concat (map (lit_gates f_in ak) clause)) s = Some ?s1"
    by (rule run_literals[OF assms(3) assms(6)])
  have anc1: "\<not> ?s1 anc"
    using assms(5,7) flipped_outside[OF assms(4) assms(6), of s] by simp
  let ?s2 = "?s1(ak := (?s1 ak \<noteq> (?s1 ?f0 \<and> ?s1 ?f1 \<and> ?s1 ?f2)))"
  have r2: "run [Barrier f_in, CCX_gate ?f0 ?f1 anc, CCX_gate ?f2 anc ak, Barrier f_in,
              CCX_gate ?f0 ?f1 anc] ?s1 = Some ?s2"
    using d o assms(5) anc1 by (intro run_conjunction) auto
  have s2: "?s2 = ?F(ak := (s ak \<noteq> code_g f_in s clause))"
    using o by (auto simp: code_g_def fun_eq_iff)
  have r3: "run (concat (map (unflip_gates f_in) clause)) ?s2 = Some (flipped f_in clause ?s2)"
    by (rule run_unflips[OF assms(6)])
  have s3: "flipped f_in clause ?s2 = s(ak := (s ak \<noteq> code_g f_in s clause))"
    unfolding s2 flipped_upd[OF assms(3) assms(6)] flipped_twice ..
  have r3': "run (concat (map (unflip_gates f_in) clause)) ?s2
               = Some (s(ak := (s ak \<noteq> code_g f_in s clause)))"
    using r3 unfolding s3 .
  show ?thesis
    unfolding block_gates_def fst_conv snd_conv assms(8,9)
    using r1 r2 r3' by (rule run_three_parts)
qed

lemma abs_triple_cases:
  fixes a b c :: int
  assumes "{\<bar>a\<bar>, \<bar>b\<bar>, \<bar>c\<bar>} = {1, 2, 3}"
  shows "(\<bar>a\<bar> = 1 \<and> \<bar>b\<bar> = 2 \<and> \<bar>c\<bar> = 3) \<or> (\<bar>a\<bar> = 1 \<and> \<bar>b\<bar> = 3 \<and> \<bar>c\<bar> = 2)
       \<or> (\<bar>a\<bar> = 2 \<and> \<bar>b\<bar> = 1 \<and> \<bar>c\<bar> = 3) \<or> (\<bar>a\<bar> = 2 \<and> \<bar>b\<bar> = 3 \<and> \<bar>c\<bar> = 1)
       \<or> (\<bar>a\<bar> = 3 \<and> \<bar>b\<bar> = 1 \<and> \<bar>c\<bar> = 2) \<or> (\<bar>a\<bar> = 3 \<and> \<bar>b\<bar> = 2 \<and> \<bar>c\<bar> = 1)"
proof -
  define x y z where "x = \<bar>a\<bar>" and "y = \<bar>b\<bar>" and "z = \<bar>c\<bar>"
  have e: "{x, y, z} = {1, 2, 3}" using assms by (simp add: x_def y_def z_def)
  have "x \<in> {x, y, z}" "y \<in> {x, y, z}" "z \<in> {x, y, z}" by simp_all
  then have m: "x \<in> {1, 2, 3}" "y \<in> {1, 2, 3}" "z \<in> {1, 2, 3}" unfolding e by simp_all
  have "1 \<in> {x, y, z}" "2 \<in> {x, y, z}" "3 \<in> {x, y, z}" unfolding e by simp_all
  with m have "(x = 1 \<and> y = 2 \<and> z = 3) \<or> (x = 1 \<and> y = 3 \<and> z = 2)
       \<or> (x = 2 \<and> y = 1 \<and> z = 3) \<or> (x = 2 \<and> y = 3 \<and> z = 1)
       \<or> (x = 3 \<and> y = 1 \<and> z = 2) \<or> (x = 3 \<and> y = 2 \<and> z = 1)"
    by auto
  then show ?thesis by (simp add: x_def y_def z_def)
qed

lemma code_g_perm:
  assumes "f0 \<noteq> f1" "f0 \<noteq> f2" "f1 \<noteq> f2"
      and "lit_qubit f_in l1 = f0" "lit_qubit f_in l2 = f1" "lit_qubit f_in l3 = f2"
      and "{f_in ! 0, f_in ! 1, f_in ! 2} = {f0, f1, f2}"
  shows "code_g f_in s [l1, l2, l3] = textbook_g f_in s [l1, l2, l3]"
proof -
  have conj3: "(flipped f_in [l1, l2, l3] s (f_in ! 0) \<and> flipped f_in [l1, l2, l3] s (f_in ! 1)
             \<and> flipped f_in [l1, l2, l3] s (f_in ! 2))
          = (flipped f_in [l1, l2, l3] s f0 \<and> flipped f_in [l1, l2, l3] s f1
             \<and> flipped f_in [l1, l2, l3] s f2)"
  proof -
    have "(\<forall>q \<in> {f_in ! 0, f_in ! 1, f_in ! 2}. flipped f_in [l1, l2, l3] s q)
            = (\<forall>q \<in> {f0, f1, f2}. flipped f_in [l1, l2, l3] s q)"
      unfolding assms(7) ..
    then show ?thesis by simp
  qed
  show ?thesis
    unfolding code_g_def conj3
    using assms(1-6)
    by (auto simp: textbook_g_def textbook_literal_def flip_step_def)
qed

lemma names_valid:
  assumes "names_x0_x1_x2 clause" and "3 \<le> length f_in"
  shows "list_all (valid_literal f_in) clause"
proof -
  have "valid_literal f_in l" if "l \<in> set clause" for l
  proof -
    from that have "\<bar>l\<bar> \<in> set (map abs clause)" by simp
    then have "\<bar>l\<bar> \<in> {1, 2, 3}" using assms(1) by (simp add: names_x0_x1_x2_def)
    then show ?thesis using assms(2) by (auto simp: valid_literal_def)
  qed
  then show ?thesis by (simp add: list_all_iff)
qed

lemma code_g_textbook:
  assumes "names_x0_x1_x2 clause" and "3 \<le> length f_in" and "distinct f_in"
  shows "code_g f_in s clause = textbook_g f_in s clause"
proof -
  from assms(1) obtain l1 l2 l3 where c: "clause = [l1, l2, l3]"
    by (cases clause; cases "tl clause"; cases "tl (tl clause)") (auto simp: names_x0_x1_x2_def)
  have e: "{\<bar>l1\<bar>, \<bar>l2\<bar>, \<bar>l3\<bar>} = {1, 2, 3}"
    using assms(1) c by (simp add: names_x0_x1_x2_def)
  note d = first_three_distinct[OF assms(2,3)]
  have q: "\<bar>l\<bar> = 1 \<Longrightarrow> lit_qubit f_in l = f_in ! 0"
          "\<bar>l\<bar> = 2 \<Longrightarrow> lit_qubit f_in l = f_in ! 1"
          "\<bar>l\<bar> = 3 \<Longrightarrow> lit_qubit f_in l = f_in ! 2" for l
    by (simp_all add: lit_qubit_def)
  from abs_triple_cases[OF e] show ?thesis
    unfolding c
  proof (elim disjE conjE)
    assume "\<bar>l1\<bar> = 1" "\<bar>l2\<bar> = 2" "\<bar>l3\<bar> = 3"
    then show "code_g f_in s [l1, l2, l3] = textbook_g f_in s [l1, l2, l3]"
      using d by (intro code_g_perm[where ?f0.0 = "f_in ! 0" and ?f1.0 = "f_in ! 1" and ?f2.0 = "f_in ! 2"])
                 (auto simp: q)
  next
    assume "\<bar>l1\<bar> = 1" "\<bar>l2\<bar> = 3" "\<bar>l3\<bar> = 2"
    then show "code_g f_in s [l1, l2, l3] = textbook_g f_in s [l1, l2, l3]"
      using d by (intro code_g_perm[where ?f0.0 = "f_in ! 0" and ?f1.0 = "f_in ! 2" and ?f2.0 = "f_in ! 1"])
                 (auto simp: q)
  next
    assume "\<bar>l1\<bar> = 2" "\<bar>l2\<bar> = 1" "\<bar>l3\<bar> = 3"
    then show "code_g f_in s [l1, l2, l3] = textbook_g f_in s [l1, l2, l3]"
      using d by (intro code_g_perm[where ?f0.0 = "f_in ! 1" and ?f1.0 = "f_in ! 0" and ?f2.0 = "f_in ! 2"])
                 (auto simp: q)
  next
    assume "\<bar>l1\<bar> = 2" "\<bar>l2\<bar> = 3" "\<bar>l3\<bar> = 1"
    then show "code_g f_in s [l1, l2, l3] = textbook_g f_in s [l1, l2, l3]"
      using d by (intro code_g_perm[where ?f0.0 = "f_in ! 1" and ?f1.0 = "f_in ! 2" and ?f2.0 = "f_in ! 0"])
                 (auto simp: q)
  next
    assume "\<bar>l1\<bar> = 3" "\<bar>l2\<bar> = 1" "\<bar>l3\<bar> = 2"
    then show "code_g f_in s [l1, l2, l3] = textbook_g f_in s [l1, l2, l3]"
      using d by (intro code_g_perm[where ?f0.0 = "f_in ! 2" and ?f1.0 = "f_in ! 0" and ?f2.0 = "f_in ! 1"])
                 (auto simp: q)
  next
    assume "\<bar>l1\<bar> = 3" "\<bar>l2\<bar> = 2" "\<bar>l3\<bar> = 1"
    then show "code_g f_in s [l1, l2, l3] = textbook_g f_in s [l1, l2, l3]"
      using d by (intro code_g_perm[where ?f0.0 = "f_in ! 2" and ?f1.0 = "f_in ! 1" and ?f2.0 = "f_in ! 0"])
                 (auto simp: q)
  qed
qed

lemma textbook_g_upd_away:
  assumes "q \<notin> lit_qubit f_in ` set ls"
  shows "textbook_g f_in (s(q := v)) ls = textbook_g f_in s ls"
proof -
  have "textbook_literal f_in (s(q := v)) l = textbook_literal f_in s l" if "l \<in> set ls" for l
  proof -
    from that assms have "lit_qubit f_in l \<noteq> q" by auto
    then show ?thesis by (simp only: textbook_literal_def fun_upd_apply) simp
  qed
  then have m: "map (textbook_literal f_in (s(q := v))) ls = map (textbook_literal f_in s) ls"
    and a: "list_all (textbook_literal f_in (s(q := v))) ls = list_all (textbook_literal f_in s) ls"
    by (simp_all add: list_all_iff)
  show ?thesis unfolding textbook_g_def m a ..
qed

lemma code_g_differs:
  assumes "3 \<le> length f_in" and "distinct f_in"
      and "list_all (valid_literal f_in) clause"
      and "j < 3" and "f_in ! j \<notin> lit_qubit f_in ` set clause"
      and "set aux \<inter> set f_in = {}"
  shows "\<exists>s. list_all (\<lambda>a. \<not> s a) aux \<and> code_g f_in s clause \<noteq> textbook_g f_in s clause"
proof -
  let ?T = "\<lambda>q. q \<in> set f_in"
  let ?b1 = "flipped f_in clause ?T"
  let ?qj = "f_in ! j"
  let ?b0 = "?b1(?qj := False)"
  note mem = first_three_mem[OF assms(1)]
  have F1: "flipped f_in clause ?b1 = ?T" by (rule flipped_twice)
  have F0: "flipped f_in clause ?b0 = ?T(?qj := False)"
    unfolding flipped_upd_away[OF assms(5)] F1 ..
  have x: "xor_reads f_in clause ?b0 = xor_reads f_in clause ?b1"
    by (rule xor_reads_upd_away[OF assms(5)])
  have t: "textbook_g f_in ?b0 clause = textbook_g f_in ?b1 clause"
    by (rule textbook_g_upd_away[OF assms(5)])
  have c1: "code_g f_in ?b1 clause = (\<not> xor_reads f_in clause ?b1)"
    unfolding code_g_def F1 using mem by simp
  have "j = 0 \<or> j = 1 \<or> j = 2" using assms(4) by arith
  then have "\<not> ((?T(?qj := False)) (f_in ! 0) \<and> (?T(?qj := False)) (f_in ! 1)
                \<and> (?T(?qj := False)) (f_in ! 2))"
    by (auto simp only: fun_upd_apply split: if_splits)
  then have c0: "code_g f_in ?b0 clause = xor_reads f_in clause ?b1"
    unfolding code_g_def F0 x by simp
  have clean1: "list_all (\<lambda>a. \<not> ?b1 a) aux"
  proof -
    have "\<not> ?b1 a" if "a \<in> set aux" for a
    proof -
      from that assms(6) have "a \<notin> set f_in" by auto
      then show ?thesis using flipped_outside[OF _ assms(3), of a ?T] by simp
    qed
    then show ?thesis by (simp add: list_all_iff)
  qed
  have clean0: "list_all (\<lambda>a. \<not> ?b0 a) aux"
    using clean1 by (auto simp: list_all_iff)
  show ?thesis
  proof (cases "code_g f_in ?b1 clause = textbook_g f_in ?b1 clause")
    case False
    then show ?thesis using clean1 by blast
  next
    case True
    then have "code_g f_in ?b0 clause \<noteq> textbook_g f_in ?b0 clause"
      unfolding t c0 using c1 by blast
    then show ?thesis using clean0 by blast
  qed
qed

lemma run_seq:
  assumes "run A s = Some s1" and "run B s1 = Some s2"
  shows "run (A @ B) s = Some s2"
  unfolding run_append using assms by simp

lemma enumerate_simps:
  "enumerate [c0] = [(0, c0)]"
  "enumerate [c0, c1] = [(0, c0), (1, c1)]"
  "enumerate [c0, c1, c2] = [(0, c0), (1, c1), (2, c2)]"
  by (simp_all add: enumerate_def upt_rec)

lemma missing_variable:
  assumes "length clause = 3" and "\<not> names_x0_x1_x2 clause"
      and "list_all (valid_literal f_in) clause" and "distinct f_in" and "3 \<le> length f_in"
  shows "\<exists>j<3. f_in ! j \<notin> lit_qubit f_in ` set clause"
proof -
  let ?A = "set (map abs clause)"
  have ne: "?A \<noteq> {1, 2, 3}" using assms(1,2) by (simp add: names_x0_x1_x2_def)
  have "card ?A \<le> length (map abs clause)" by (rule card_length)
  then have c: "card ?A \<le> 3" using assms(1) by simp
  have "\<not> {1, 2, 3} \<subseteq> ?A"
  proof
    assume sub: "{1, 2, 3} \<subseteq> ?A"
    have "card {1, 2, 3 :: int} = 3" by simp
    with c have "card ?A \<le> card {1, 2, 3 :: int}" by simp
    from card_seteq[OF _ sub this] have "{1, 2, 3} = ?A" by simp
    with ne show False by simp
  qed
  then obtain v :: int where v: "v \<in> {1, 2, 3}" "v \<notin> ?A" by blast
  let ?j = "nat (v - 1)"
  have j3: "?j < 3" using v(1) by auto
  have "f_in ! ?j \<notin> lit_qubit f_in ` set clause"
  proof
    assume "f_in ! ?j \<in> lit_qubit f_in ` set clause"
    then obtain l where l: "l \<in> set clause" "f_in ! ?j = f_in ! nat (\<bar>l\<bar> - 1)"
      by (auto simp: lit_qubit_def)
    have vl: "valid_literal f_in l" using assms(3) l(1) by (simp add: list_all_iff)
    then have lt: "nat (\<bar>l\<bar> - 1) < length f_in" by (auto simp: valid_literal_def)
    have "?j < length f_in" using j3 assms(5) by simp
    with l(2) lt assms(4) have "?j = nat (\<bar>l\<bar> - 1)" by (simp add: nth_eq_iff_index_eq)
    moreover have "1 \<le> \<bar>l\<bar>" using vl by (auto simp: valid_literal_def)
    ultimately have "\<bar>l\<bar> = v" using v(1) by auto
    with l(1) v(2) show False by force
  qed
  with j3 show ?thesis by blast
qed

lemma filter_is_ccx_block:
  "filter is_ccx (block_gates f_in aux nc (k, clause)) =
     [CCX_gate (f_in ! 0) (f_in ! 1) (aux ! nc), CCX_gate (f_in ! 2) (aux ! nc) (aux ! k),
      CCX_gate (f_in ! 0) (f_in ! 1) (aux ! nc)]"
proof -
  have a: "filter is_ccx (concat (map (lit_gates f_in q) ls)) = []" for q ls
    by (induction ls) (simp_all add: lit_gates_def)
  have b: "filter is_ccx (concat (map (unflip_gates f_in) ls)) = []" for ls
    by (induction ls) (simp_all add: unflip_gates_def)
  show ?thesis by (simp add: block_gates_def a b)
qed

text \<open>
  Claim C8: whatever variables the literals of a clause name, the only doubly controlled
  gates that the block of the clause appends are \<^verbatim>\<open>ccx(f_in[0], f_in[1], aux[num_clauses])\<close>,
  \<^verbatim>\<open>ccx(f_in[2], aux[num_clauses], aux[k])\<close> and the first one again (to clean the
  ancilla). Consequently, for a clause of three valid literals, \<^verbatim>\<open>aux[k]\<close> holds the
  textbook value \<open>g\<^sub>k\<close> on every input with clean \<^verbatim>\<open>aux\<close> only when the absolute values of
  its literals are exactly 1, 2, 3: otherwise some such input gives a different value.
  (When they are, \<^verbatim>\<open>aux[k]\<close> does hold \<open>g\<^sub>k\<close>.)
\<close>

theorem clause_block_fixed_conjunction:
  assumes "3 \<le> length f_in" and "distinct (f_in @ aux)"
      and "k < num_clauses" and "num_clauses < length aux"
      and "list_all (valid_literal f_in) clause"
  shows "\<exists>G. clause_block f_in aux num_clauses circ (k, clause) = Inr (circ\<lparr>gates := gates circ @ G\<rparr>)
          \<and> filter is_ccx G =
               [CCX_gate (f_in ! 0) (f_in ! 1) (aux ! num_clauses),
                CCX_gate (f_in ! 2) (aux ! num_clauses) (aux ! k),
                CCX_gate (f_in ! 0) (f_in ! 1) (aux ! num_clauses)]
          \<and> (length clause = 3 \<and> \<not> names_x0_x1_x2 clause \<longrightarrow>
                (\<exists>s s'. list_all (\<lambda>a. \<not> s a) aux \<and> run G s = Some s'
                    \<and> s' (aux ! k) \<noteq> textbook_g f_in s clause))
          \<and> (names_x0_x1_x2 clause \<longrightarrow>
                (\<forall>s. list_all (\<lambda>a. \<not> s a) aux \<longrightarrow>
                   (\<exists>s'. run G s = Some s' \<and> s' (aux ! k) = textbook_g f_in s clause)))"
proof -
  let ?G = "block_gates f_in aux num_clauses (k, clause)"
  note af = aux_facts[OF assms(2,3,4)]
  have kl: "k < length aux" using assms(3,4) by simp
  have 1: "clause_block f_in aux num_clauses circ (k, clause) = Inr (circ\<lparr>gates := gates circ @ ?G\<rparr>)"
    using clause_block_ok[OF assms(1,2) _ assms(4), of "(k, clause)" circ] assms(3,5)
    by (simp add: more_gates_def)
  have 2: "filter is_ccx ?G =
               [CCX_gate (f_in ! 0) (f_in ! 1) (aux ! num_clauses),
                CCX_gate (f_in ! 2) (aux ! num_clauses) (aux ! k),
                CCX_gate (f_in ! 0) (f_in ! 1) (aux ! num_clauses)]"
    by (rule filter_is_ccx_block)
  have sem: "run ?G s = Some (s(aux ! k := code_g f_in s clause))"
    if "list_all (\<lambda>a. \<not> s a) aux" for s
  proof -
    have c: "\<not> s (aux ! k)" "\<not> s (aux ! num_clauses)"
      using that kl assms(4) by (simp_all add: list_all_length)
    have "run ?G s = Some (s(aux ! k := (s (aux ! k) \<noteq> code_g f_in s clause)))"
      using run_block[where ak = "aux ! k" and anc = "aux ! num_clauses" and s = s
          and aux = aux and k = k and nc = num_clauses and f_in = f_in and clause = clause]
        assms(1) af(5) af(1) af(2) af(3) assms(5) c(2)
      by simp
    then show ?thesis using c(1) by simp
  qed
  have 3: "length clause = 3 \<and> \<not> names_x0_x1_x2 clause \<longrightarrow>
                (\<exists>s s'. list_all (\<lambda>a. \<not> s a) aux \<and> run ?G s = Some s'
                    \<and> s' (aux ! k) \<noteq> textbook_g f_in s clause)"
  proof
    assume a: "length clause = 3 \<and> \<not> names_x0_x1_x2 clause"
    from missing_variable[OF _ _ assms(5) af(5) assms(1)] a
    obtain j where j: "j < 3" "f_in ! j \<notin> lit_qubit f_in ` set clause" by blast
    from code_g_differs[OF assms(1) af(5) assms(5) j af(4)]
    obtain s where s: "list_all (\<lambda>a. \<not> s a) aux" "code_g f_in s clause \<noteq> textbook_g f_in s clause"
      by blast
    have "(s(aux ! k := code_g f_in s clause)) (aux ! k) \<noteq> textbook_g f_in s clause"
      using s(2) by simp
    with s(1) sem[OF s(1)] show "\<exists>s s'. list_all (\<lambda>a. \<not> s a) aux \<and> run ?G s = Some s'
                    \<and> s' (aux ! k) \<noteq> textbook_g f_in s clause"
      by blast
  qed
  have 4: "names_x0_x1_x2 clause \<longrightarrow>
                (\<forall>s. list_all (\<lambda>a. \<not> s a) aux \<longrightarrow>
                   (\<exists>s'. run ?G s = Some s' \<and> s' (aux ! k) = textbook_g f_in s clause))"
  proof (intro impI allI)
    fix s
    assume n: "names_x0_x1_x2 clause" and c: "list_all (\<lambda>a. \<not> s a) aux"
    have "(s(aux ! k := code_g f_in s clause)) (aux ! k) = textbook_g f_in s clause"
      using code_g_textbook[OF n assms(1) af(5), of s] by simp
    with sem[OF c] show "\<exists>s'. run ?G s = Some s' \<and> s' (aux ! k) = textbook_g f_in s clause"
      by blast
  qed
  show ?thesis by (rule exI[of _ ?G]) (intro conjI 1 2 3 4)
qed

text \<open>The clause \<open>x\<^sub>0 \<or> x\<^sub>0 \<or> x\<^sub>1\<close>, which does not name \<open>x\<^sub>2\<close>.\<close>

theorem clause_block_fixed_conjunction_witness:
  "\<exists>G. clause_block (QuantumRegister 3 ''x'') (QuantumRegister 2 ''aux'') 1 (oracle_circuit 1) (0, [1, 1, 2])
          = Inr ((oracle_circuit 1)\<lparr>gates := gates (oracle_circuit 1) @ G\<rparr>)
      \<and> filter is_ccx G =
               [CCX_gate (Qubit ''x'' 0) (Qubit ''x'' 1) (Qubit ''aux'' 1),
                CCX_gate (Qubit ''x'' 2) (Qubit ''aux'' 1) (Qubit ''aux'' 0),
                CCX_gate (Qubit ''x'' 0) (Qubit ''x'' 1) (Qubit ''aux'' 1)]
      \<and> (\<exists>s s'. list_all (\<lambda>a. \<not> s a) (QuantumRegister 2 ''aux'') \<and> run G s = Some s'
                    \<and> s' (Qubit ''aux'' 0) \<noteq> textbook_g (QuantumRegister 3 ''x'') s [1, 1, 2])"
proof -
  have r3: "QuantumRegister 3 ''x'' = [Qubit ''x'' 0, Qubit ''x'' 1, Qubit ''x'' 2]"
    by (simp add: QuantumRegister_def upt_rec)
  have r2: "QuantumRegister 2 ''aux'' = [Qubit ''aux'' 0, Qubit ''aux'' 1]"
    by (simp add: QuantumRegister_def upt_rec)
  have "(3::int) \<notin> set (map abs [1, 1, 2])" by simp
  moreover have "(3::int) \<in> {1, 2, 3}" by simp
  ultimately have "set (map abs [1, 1, 2 :: int]) \<noteq> {1, 2, 3}" by metis
  then have n: "\<not> names_x0_x1_x2 [1, 1, 2]" by (simp add: names_x0_x1_x2_def)
  have v: "list_all (valid_literal (QuantumRegister 3 ''x'')) [1, 1, 2]"
    by (simp add: valid_literal_def r3)
  have d: "distinct (QuantumRegister 3 ''x'' @ QuantumRegister 2 ''aux'')"
    by (simp add: r3 r2)
  have l: "3 \<le> length (QuantumRegister 3 ''x'')" "(1::nat) < length (QuantumRegister 2 ''aux'')"
    by (simp_all add: r3 r2)
  show ?thesis
    using clause_block_fixed_conjunction[OF l(1) d _ l(2) v, of 0 "oracle_circuit 1"] n
    by (simp add: r3 r2)
qed

subsection \<open>The whole oracle on basis states\<close>

lemma run_blocks:
  assumes "3 \<le> length f_in" and "distinct (f_in @ aux)" and "nc < length aux"
      and "list_all (\<lambda>kc. fst kc < nc \<and> list_all (valid_literal f_in) (snd kc)) kcs"
      and "\<not> st (aux ! nc)"
  shows "run (concat (map (block_gates f_in aux nc) kcs)) st
           = Some (fold (block_step f_in aux) kcs st)"
  using assms(4,5)
proof (induction kcs arbitrary: st)
  case Nil
  show ?case by simp
next
  case (Cons kc kcs)
  obtain k c where kc: "kc = (k, c)" by (cases kc)
  have k: "k < nc" and v: "list_all (valid_literal f_in) c"
    and rest: "list_all (\<lambda>kc. fst kc < nc \<and> list_all (valid_literal f_in) (snd kc)) kcs"
    using Cons.prems(1) kc by simp_all
  note af = aux_facts[OF assms(2) k assms(3)]
  have b: "run (block_gates f_in aux nc kc) st = Some (block_step f_in aux kc st)"
    unfolding block_step_def kc fst_conv snd_conv
    using run_block[where ak = "aux ! k" and anc = "aux ! nc" and s = st
          and aux = aux and k = k and nc = nc and f_in = f_in and clause = c]
        assms(1) af(5) af(1) af(2) af(3) v Cons.prems(2)
    by simp
  have clean: "\<not> block_step f_in aux kc st (aux ! nc)"
    using Cons.prems(2) af(3) by (simp add: block_step_def kc)
  have "run (concat (map (block_gates f_in aux nc) kcs)) (block_step f_in aux kc st)
          = Some (fold (block_step f_in aux) kcs (block_step f_in aux kc st))"
    using rest clean by (rule Cons.IH[where st = "block_step f_in aux kc st"])
  with b have "run (block_gates f_in aux nc kc @ concat (map (block_gates f_in aux nc) kcs)) st
          = Some (fold (block_step f_in aux) kcs (block_step f_in aux kc st))"
    by (rule run_seq)
  then show ?case by simp
qed

lemma run_final_gates:
  assumes "distinct (f_out @ aux)" and "1 \<le> length f_out" and "nc < length aux"
      and "nc \<in> {1, 2, 3}" and "\<not> st (aux ! nc)"
  shows "run (final_gates f_out aux nc) st
           = Some (st(f_out ! 0 := (st (f_out ! 0) \<noteq> list_all st (take nc aux))))"
proof -
  have o: "f_out ! 0 \<in> set f_out" using assms(2) by (cases f_out) auto
  have d: "distinct aux" "set f_out \<inter> set aux = {}" using assms(1) by auto
  have mem: "aux ! i \<noteq> f_out ! 0" if "i < length aux" for i
  proof -
    have "aux ! i \<in> set aux" using that by (rule nth_mem)
    with o d(2) show ?thesis by auto
  qed
  have ne: "i < length aux \<Longrightarrow> j < length aux \<Longrightarrow> i \<noteq> j \<Longrightarrow> aux ! i \<noteq> aux ! j" for i j
    using d(1) by (simp add: nth_eq_iff_index_eq)
  consider "nc = 1" | "nc = 2" | "nc = 3" using assms(4) by auto
  then show ?thesis
  proof cases
    case 1
    then obtain a0 rest where aux: "aux = a0 # rest" using assms(3) by (cases aux) auto
    have "a0 \<noteq> f_out ! 0" using mem[of 0] aux by simp
    then show ?thesis using 1 aux by (simp add: final_gates_def)
  next
    case 2
    then obtain a0 a1 rest where aux: "aux = a0 # a1 # rest"
      using assms(3) by (cases aux; cases "tl aux") auto
    have "a0 \<noteq> f_out ! 0" "a1 \<noteq> f_out ! 0" "a0 \<noteq> a1"
      using mem[of 0] mem[of 1] ne[of 0 1] aux by simp_all
    then show ?thesis using 2 aux by (simp add: final_gates_def)
  next
    case 3
    then obtain a0 a1 a2 a3 rest where aux: "aux = a0 # a1 # a2 # a3 # rest"
      using assms(3) by (cases aux; cases "tl aux"; cases "tl (tl aux)"; cases "tl (tl (tl aux))") auto
    have n: "a0 \<noteq> f_out ! 0" "a1 \<noteq> f_out ! 0" "a2 \<noteq> f_out ! 0" "a3 \<noteq> f_out ! 0"
      "a0 \<noteq> a1" "a0 \<noteq> a2" "a0 \<noteq> a3" "a1 \<noteq> a2" "a1 \<noteq> a3" "a2 \<noteq> a3"
      using mem[of 0] mem[of 1] mem[of 2] mem[of 3] assms(1) aux by auto
    have c: "\<not> st a3" using assms(5) 3 aux by simp
    have "run [CCX_gate a0 a1 a3, CCX_gate a2 a3 (f_out ! 0), CCX_gate a0 a1 a3] st
            = Some (st(f_out ! 0 := (st (f_out ! 0) \<noteq> (st a0 \<and> st a1 \<and> st a2))))"
      using n c by (auto simp: fun_eq_iff)
    then show ?thesis using 3 aux by (simp add: final_gates_def numeral_3_eq_3)
  qed
qed

lemma block_step_apply:
  "block_step f_in aux kc u q =
     (if q = aux ! fst kc then (u q \<noteq> code_g f_in u (snd kc)) else u q)"
  by (simp add: block_step_def)

lemma code_g_block_step:
  assumes "aux ! fst kc \<notin> set f_in" and "list_all (valid_literal f_in) c" and "3 \<le> length f_in"
  shows "code_g f_in (block_step f_in aux kc u) c = code_g f_in u c"
  unfolding block_step_def by (rule code_g_upd[OF assms])

lemma block_step_twice:
  assumes "aux ! fst kc \<notin> set f_in" and "list_all (valid_literal f_in) (snd kc)"
      and "3 \<le> length f_in"
  shows "block_step f_in aux kc (block_step f_in aux kc u) = u"
proof
  fix q
  show "block_step f_in aux kc (block_step f_in aux kc u) q = u q"
    unfolding block_step_apply[of f_in aux kc "block_step f_in aux kc u"]
      code_g_block_step[OF assms]
    by (auto simp: block_step_apply)
qed

lemma block_step_commute:
  assumes "aux ! fst kc \<notin> set f_in" and "list_all (valid_literal f_in) (snd kc)"
      and "aux ! fst kc' \<notin> set f_in" and "list_all (valid_literal f_in) (snd kc')"
      and "3 \<le> length f_in"
  shows "block_step f_in aux kc (block_step f_in aux kc' u)
           = block_step f_in aux kc' (block_step f_in aux kc u)"
proof
  fix q
  show "block_step f_in aux kc (block_step f_in aux kc' u) q
           = block_step f_in aux kc' (block_step f_in aux kc u) q"
    unfolding block_step_apply[of f_in aux kc "block_step f_in aux kc' u"]
      block_step_apply[of f_in aux kc' "block_step f_in aux kc u"]
      code_g_block_step[OF assms(3) assms(2) assms(5)]
      code_g_block_step[OF assms(1) assms(4) assms(5)]
    by (auto simp: block_step_apply)
qed

lemma block_step_fold_commute:
  assumes "wf_blocks f_in aux kcs"
      and "aux ! fst kc \<notin> set f_in" and "list_all (valid_literal f_in) (snd kc)"
      and "3 \<le> length f_in"
  shows "block_step f_in aux kc (fold (block_step f_in aux) kcs u)
           = fold (block_step f_in aux) kcs (block_step f_in aux kc u)"
  using assms(1)
proof (induction kcs arbitrary: u)
  case Nil
  show ?case by simp
next
  case (Cons kc' kcs)
  have w: "aux ! fst kc' \<notin> set f_in" "list_all (valid_literal f_in) (snd kc')"
    "wf_blocks f_in aux kcs"
    using Cons.prems by (simp_all add: wf_blocks_def)
  have "block_step f_in aux kc (fold (block_step f_in aux) (kc' # kcs) u)
          = fold (block_step f_in aux) kcs (block_step f_in aux kc (block_step f_in aux kc' u))"
    using Cons.IH[OF w(3), of "block_step f_in aux kc' u"] by simp
  also have "\<dots> = fold (block_step f_in aux) kcs (block_step f_in aux kc' (block_step f_in aux kc u))"
    by (simp only: block_step_commute[OF assms(2,3) w(1,2) assms(4)])
  finally show ?case by simp
qed

lemma fold_block_step_twice:
  assumes "wf_blocks f_in aux kcs" and "3 \<le> length f_in"
  shows "fold (block_step f_in aux) kcs (fold (block_step f_in aux) kcs u) = u"
  using assms(1)
proof (induction kcs arbitrary: u)
  case Nil
  show ?case by simp
next
  case (Cons kc kcs)
  have w: "aux ! fst kc \<notin> set f_in" "list_all (valid_literal f_in) (snd kc)"
    "wf_blocks f_in aux kcs"
    using Cons.prems by (simp_all add: wf_blocks_def)
  let ?T = "block_step f_in aux"
  have "fold ?T (kc # kcs) (fold ?T (kc # kcs) u) = fold ?T kcs (?T kc (fold ?T kcs (?T kc u)))"
    by simp
  also have "\<dots> = fold ?T kcs (fold ?T kcs (?T kc (?T kc u)))"
    by (simp only: block_step_fold_commute[OF w(3) w(1,2) assms(2)])
  also have "\<dots> = u"
    by (simp only: Cons.IH[OF w(3)] block_step_twice[OF w(1,2) assms(2)])
  finally show ?case .
qed

lemma fold_block_step_other:
  assumes "q \<notin> (\<lambda>kc. aux ! fst kc) ` set kcs"
  shows "fold (block_step f_in aux) kcs u q = u q"
  using assms
proof (induction kcs arbitrary: u)
  case Nil
  show ?case by simp
next
  case (Cons kc kcs)
  then have "q \<noteq> aux ! fst kc" "q \<notin> (\<lambda>kc. aux ! fst kc) ` set kcs" by auto
  then show ?case using Cons.IH[of "block_step f_in aux kc u"] by (simp add: block_step_apply)
qed

lemma fold_block_step_upd:
  assumes "wf_blocks f_in aux kcs" and "3 \<le> length f_in"
      and "out \<notin> set f_in" and "out \<notin> (\<lambda>kc. aux ! fst kc) ` set kcs"
  shows "fold (block_step f_in aux) kcs (u(out := v)) = (fold (block_step f_in aux) kcs u)(out := v)"
  using assms(1,4)
proof (induction kcs arbitrary: u)
  case Nil
  show ?case by simp
next
  case (Cons kc kcs)
  have w: "aux ! fst kc \<notin> set f_in" "list_all (valid_literal f_in) (snd kc)"
    "wf_blocks f_in aux kcs"
    using Cons.prems(1) by (simp_all add: wf_blocks_def)
  have ne: "out \<noteq> aux ! fst kc" and away: "out \<notin> (\<lambda>kc. aux ! fst kc) ` set kcs"
    using Cons.prems(2) by auto
  have bs: "block_step f_in aux kc (u(out := v)) = (block_step f_in aux kc u)(out := v)"
  proof
    fix q
    show "block_step f_in aux kc (u(out := v)) q = ((block_step f_in aux kc u)(out := v)) q"
      unfolding block_step_apply[of f_in aux kc "u(out := v)"] code_g_upd[OF assms(3) w(2) assms(2)]
      using ne by (simp only: fun_upd_apply block_step_apply) auto
  qed
  show ?case by (simp only: fold_simps bs Cons.IH[OF w(3) away])
qed

lemma enumerate_snoc: "enumerate (xs @ [x]) = enumerate xs @ [(length xs, x)]"
  by (simp add: enumerate_def)

lemma code_g_fold:
  assumes "wf_blocks f_in aux kcs" and "list_all (valid_literal f_in) c" and "3 \<le> length f_in"
  shows "code_g f_in (fold (block_step f_in aux) kcs u) c = code_g f_in u c"
  using assms(1)
proof (induction kcs arbitrary: u)
  case Nil
  show ?case by simp
next
  case (Cons kc kcs)
  have w: "aux ! fst kc \<notin> set f_in" "wf_blocks f_in aux kcs"
    using Cons.prems by (simp_all add: wf_blocks_def)
  show ?case
    by (simp only: fold_simps Cons.IH[OF w(2)] code_g_block_step[OF w(1) assms(2,3)])
qed

lemma wf_blocks_enumerate:
  assumes "distinct (f_in @ aux)" and "length xs \<le> length aux"
      and "list_all (list_all (valid_literal f_in)) xs"
  shows "wf_blocks f_in aux (enumerate xs)"
proof -
  have "aux ! fst kc \<notin> set f_in \<and> list_all (valid_literal f_in) (snd kc)"
    if "kc \<in> set (enumerate xs)" for kc
  proof -
    from fst_enumerate[OF that] have k: "fst kc < length xs" "snd kc = xs ! fst kc" by simp_all
    then have "aux ! fst kc \<in> set aux" using assms(2) by simp
    then have 1: "aux ! fst kc \<notin> set f_in" using assms(1) by auto
    have "xs ! fst kc \<in> set xs" using k(1) by simp
    then have 2: "list_all (valid_literal f_in) (snd kc)" using assms(3) k(2) by (simp add: list_all_iff)
    from 1 2 show ?thesis ..
  qed
  then show ?thesis by (simp add: wf_blocks_def list_all_iff)
qed

lemma fold_enumerate_at:
  assumes "distinct (f_in @ aux)" and "length xs \<le> length aux"
      and "list_all (list_all (valid_literal f_in)) xs" and "3 \<le> length f_in"
      and "k < length xs"
  shows "fold (block_step f_in aux) (enumerate xs) u (aux ! k)
           = (u (aux ! k) \<noteq> code_g f_in u (xs ! k))"
  using assms(2,3,5)
proof (induction xs rule: rev_induct)
  case Nil
  then show ?case by simp
next
  case (snoc x xs)
  let ?T = "block_step f_in aux"
  have len: "length xs < length aux" using snoc.prems(1) by simp
  have le: "length xs \<le> length aux" using len by simp
  have v: "list_all (list_all (valid_literal f_in)) xs" "list_all (valid_literal f_in) x"
    using snoc.prems(2) by simp_all
  have d: "distinct aux" using assms(1) by simp
  have f: "fold ?T (enumerate (xs @ [x])) u = ?T (length xs, x) (fold ?T (enumerate xs) u)"
    by (simp add: enumerate_snoc)
  show ?case
  proof (cases "k = length xs")
    case True
    have "aux ! k \<notin> (\<lambda>kc. aux ! fst kc) ` set (enumerate xs)"
    proof
      assume "aux ! k \<in> (\<lambda>kc. aux ! fst kc) ` set (enumerate xs)"
      then obtain kc where kc: "kc \<in> set (enumerate xs)" "aux ! k = aux ! fst kc" by blast
      from fst_enumerate[OF kc(1)] have "fst kc < length xs" by simp
      with kc(2) True len d show False by (simp add: nth_eq_iff_index_eq)
    qed
    then have o: "fold ?T (enumerate xs) u (aux ! k) = u (aux ! k)"
      by (rule fold_block_step_other)
    have c: "code_g f_in (fold ?T (enumerate xs) u) x = code_g f_in u x"
      by (rule code_g_fold[OF wf_blocks_enumerate[OF assms(1) le v(1)] v(2) assms(4)])
    have st: "?T (length xs, x) (fold ?T (enumerate xs) u) (aux ! k)
                = (fold ?T (enumerate xs) u (aux ! k) \<noteq> code_g f_in (fold ?T (enumerate xs) u) x)"
      unfolding block_step_apply using True by simp
    have nth: "(xs @ [x]) ! k = x" using True by simp
    show ?thesis unfolding f st nth o c ..
  next
    case False
    then have k: "k < length xs" using snoc.prems(3) by simp
    then have "aux ! k \<noteq> aux ! length xs" using len d by (simp add: nth_eq_iff_index_eq)
    then have st: "?T (length xs, x) (fold ?T (enumerate xs) u) (aux ! k)
                     = fold ?T (enumerate xs) u (aux ! k)"
      unfolding block_step_apply by simp
    have nth: "(xs @ [x]) ! k = xs ! k" using k by (simp add: nth_append)
    show ?thesis unfolding f st nth by (rule snoc.IH[OF le v(1) k])
  qed
qed

lemma first_pass_values:
  assumes "distinct (f_in @ aux)" and "length xs \<le> length aux"
      and "list_all (list_all (valid_literal f_in)) xs" and "3 \<le> length f_in"
      and "list_all (\<lambda>a. \<not> u a) aux"
  shows "list_all (fold (block_step f_in aux) (enumerate xs) u) (take (length xs) aux)
           = list_all (code_g f_in u) xs"
proof -
  have "fold (block_step f_in aux) (enumerate xs) u (take (length xs) aux ! k)
          = code_g f_in u (xs ! k)" if "k < length xs" for k
  proof -
    have "\<not> u (aux ! k)" using assms(2,5) that by (simp add: list_all_length)
    then show ?thesis using fold_enumerate_at[OF assms(1-4) that, of u] that by simp
  qed
  then show ?thesis using assms(2) by (simp add: list_all_length)
qed

lemma run_oracle:
  assumes "3 \<le> length f_in" and "1 \<le> length f_out" and "length expression < length aux"
      and "distinct (f_in @ f_out @ aux)" and "length expression \<in> {1, 2, 3}"
      and "list_all (list_all (valid_literal f_in)) expression"
      and "list_all (\<lambda>a. \<not> s a) aux"
  shows "run (concat (map (block_gates f_in aux (length expression)) (enumerate expression))
              @ final_gates f_out aux (length expression) @ [Barrier_all]
              @ concat (map (block_gates f_in aux (length expression)) (enumerate expression))) s
           = Some (s(f_out ! 0 := (s (f_out ! 0) \<noteq> list_all (code_g f_in s) expression)))"
proof -
  let ?nc = "length expression"
  let ?E = "enumerate expression"
  let ?T = "block_step f_in aux"
  let ?P = "concat (map (block_gates f_in aux ?nc) ?E)"
  let ?out = "f_out ! 0"
  let ?anc = "aux ! ?nc"
  have dfa: "distinct (f_in @ aux)" and dfo: "distinct (f_out @ aux)" and da: "distinct aux"
    using assms(4) by auto
  have le: "?nc \<le> length aux" using assms(3) by simp
  have wfE: "wf_blocks f_in aux ?E" by (rule wf_blocks_enumerate[OF dfa le assms(6)])
  have wfE': "list_all (\<lambda>kc. fst kc < ?nc \<and> list_all (valid_literal f_in) (snd kc)) ?E"
  proof -
    have "fst kc < ?nc \<and> list_all (valid_literal f_in) (snd kc)" if "kc \<in> set ?E" for kc
    proof -
      from fst_enumerate[OF that] have k: "fst kc < ?nc" "snd kc = expression ! fst kc" by simp_all
      then have "expression ! fst kc \<in> set expression" by simp
      then have "list_all (valid_literal f_in) (expression ! fst kc)"
        using assms(6) by (auto simp: list_all_iff)
      then show ?thesis using k by simp
    qed
    then show ?thesis by (simp add: list_all_iff)
  qed
  have out_mem: "?out \<in> set f_out" using assms(2) by (cases f_out) auto
  have out_in: "?out \<notin> set f_in" and out_aux: "?out \<notin> set aux"
    using out_mem assms(4) by auto
  have anc_mem: "?anc \<in> set aux" using assms(3) by simp
  have anc_out: "?anc \<noteq> ?out" using anc_mem out_aux by auto
  have img: "q \<notin> (\<lambda>kc. aux ! fst kc) ` set ?E" if "q \<notin> set aux \<or> q = ?anc" for q
  proof
    assume "q \<in> (\<lambda>kc. aux ! fst kc) ` set ?E"
    then obtain kc where kc: "kc \<in> set ?E" "q = aux ! fst kc" by blast
    from fst_enumerate[OF kc(1)] have k: "fst kc < ?nc" by simp
    then have "aux ! fst kc \<in> set aux" using assms(3) by simp
    moreover have "aux ! fst kc \<noteq> ?anc" using k assms(3) da by (simp add: nth_eq_iff_index_eq)
    ultimately show False using that kc(2) by auto
  qed
  have anc0: "\<not> s ?anc" using assms(3,7) by (simp add: list_all_length)
  let ?s1 = "fold ?T ?E s"
  have r1: "run ?P s = Some ?s1"
    by (rule run_blocks[where st = s, OF assms(1) dfa assms(3) wfE' anc0])
  have anc1: "\<not> ?s1 ?anc"
    using anc0 fold_block_step_other[OF img[of ?anc], of f_in s] by simp
  have out1: "?s1 ?out = s ?out"
    using fold_block_step_other[OF img[of ?out], of f_in s] out_aux by simp
  have vals: "list_all ?s1 (take ?nc aux) = list_all (code_g f_in s) expression"
    by (rule first_pass_values[OF dfa le assms(6) assms(1) assms(7)])
  let ?v = "s ?out \<noteq> list_all (code_g f_in s) expression"
  let ?s2 = "?s1(?out := ?v)"
  have r2: "run (final_gates f_out aux ?nc) ?s1 = Some ?s2"
    using run_final_gates[where st = "?s1", OF dfo assms(2) assms(3) assms(5) anc1]
    unfolding out1 vals .
  have r3: "run [Barrier_all] ?s2 = Some ?s2" by simp
  have anc2: "\<not> ?s2 ?anc" using anc1 anc_out by simp
  have r4: "run ?P ?s2 = Some (fold ?T ?E ?s2)"
    by (rule run_blocks[where st = "?s2", OF assms(1) dfa assms(3) wfE' anc2])
  have restored: "fold ?T ?E ?s2 = s(?out := ?v)"
    unfolding fold_block_step_upd[OF wfE assms(1) out_in img[of ?out, OF disjI1[OF out_aux]]]
      fold_block_step_twice[OF wfE assms(1)] ..
  have "run (?P @ final_gates f_out aux ?nc @ [Barrier_all] @ ?P) s = Some (fold ?T ?E ?s2)"
    by (intro run_seq[OF r1] run_seq[OF r2] run_seq[OF r3] r4)
  then show ?thesis unfolding restored .
qed

text \<open>
  On an expression of 1 to 3 clauses each of which names each of \<open>x\<^sub>0\<close>, \<open>x\<^sub>1\<close>, \<open>x\<^sub>2\<close>
  exactly once (three signed literals whose absolute values are 1, 2, 3 in some order:
  the form of the notebook's examples), with registers of pairwise distinct qubits and
  all \<^verbatim>\<open>aux\<close> qubits 0, \<^verbatim>\<open>apply_oracle\<close> completes, and the gates it appends flip
  \<^verbatim>\<open>f_out[0]\<close> exactly when the transformed expression \<open>E'\<close> is true on that input, and
  leave every other qubit (\<^verbatim>\<open>f_in\<close> and \<^verbatim>\<open>aux\<close> included) as it was.
\<close>

lemma apply_oracle_on_full_clauses:
  assumes "3 \<le> length f_in" and "1 \<le> length f_out" and "length expression < length aux"
      and "distinct (f_in @ f_out @ aux)" and "length expression \<in> {1, 2, 3}"
      and "list_all names_x0_x1_x2 expression"
      and "list_all (\<lambda>a. \<not> s a) aux"
  shows "\<exists>G. apply_oracle circ f_in f_out aux n expression = Inr (circ\<lparr>gates := gates circ @ G\<rparr>)
          \<and> run G s = Some (s(f_out ! 0 := (s (f_out ! 0) \<noteq> textbook_E' f_in s expression)))"
proof -
  have v: "list_all (list_all (valid_literal f_in)) expression"
    using assms(6) names_valid[OF _ assms(1)] by (auto simp: list_all_iff)
  have dfi: "distinct f_in" using assms(4) by simp
  have "code_g f_in s c = textbook_g f_in s c" if "c \<in> set expression" for c
    using that assms(6) code_g_textbook[OF _ assms(1) dfi, of c s] by (simp add: list_all_iff)
  then have e: "list_all (code_g f_in s) expression = textbook_E' f_in s expression"
    by (simp add: textbook_E'_def list_all_iff)
  let ?G = "concat (map (block_gates f_in aux (length expression)) (enumerate expression))
              @ final_gates f_out aux (length expression) @ [Barrier_all]
              @ concat (map (block_gates f_in aux (length expression)) (enumerate expression))"
  have 1: "apply_oracle circ f_in f_out aux n expression = Inr (circ\<lparr>gates := gates circ @ ?G\<rparr>)"
    using apply_oracle_ok[OF assms(1,2,3,4) v, of circ n] assms(5) by (simp add: more_gates_def)
  have 2: "run ?G s = Some (s(f_out ! 0 := (s (f_out ! 0) \<noteq> textbook_E' f_in s expression)))"
    using run_oracle[OF assms(1-5) v assms(7)] unfolding e .
  show ?thesis by (rule exI[of _ ?G]) (intro conjI 1 2)
qed

text \<open>The notebook's three-clause example at its solution \<open>x\<^sub>0 = 1, x\<^sub>1 = 0, x\<^sub>2 = 1\<close>.\<close>

lemma apply_oracle_notebook_example:
  "\<exists>G. apply_oracle (oracle_circuit 3) (QuantumRegister 3 ''x'') (QuantumRegister 1 ''out'')
          (QuantumRegister 4 ''aux'') 3 [[1, 2, -3], [-1, -2, -3], [-1, 2, 3]]
        = Inr ((oracle_circuit 3)\<lparr>gates := gates (oracle_circuit 3) @ G\<rparr>)
     \<and> run G state_101 = Some (state_101(Qubit ''out'' 0 := True))"
proof -
  have r3: "QuantumRegister 3 ''x'' = [Qubit ''x'' 0, Qubit ''x'' 1, Qubit ''x'' 2]"
    by (simp add: QuantumRegister_def upt_rec)
  have r1: "QuantumRegister 1 ''out'' = [Qubit ''out'' 0]"
    "QuantumRegister (Suc 0) ''out'' = [Qubit ''out'' 0]"
    by (simp_all add: QuantumRegister_def)
  have r4: "QuantumRegister 4 ''aux'' = [Qubit ''aux'' 0, Qubit ''aux'' 1, Qubit ''aux'' 2, Qubit ''aux'' 3]"
    by (simp add: QuantumRegister_def upt_rec)
  have s3: "{1, 2, 3} = {3, 2, 1 :: int}" "{1, 2, 3} = {1, 3, 2 :: int}" by auto
  have n: "list_all names_x0_x1_x2 [[1, 2, -3], [-1, -2, -3], [-1, 2, 3]]"
    by (auto simp: names_x0_x1_x2_def)
  have c: "list_all (\<lambda>a. \<not> state_101 a) (QuantumRegister 4 ''aux'')"
    by (simp add: r4 state_101_def)
  have d: "distinct (QuantumRegister 3 ''x'' @ QuantumRegister 1 ''out'' @ QuantumRegister 4 ''aux'')"
    by (simp add: r3 r1 r4)
  have e: "textbook_E' (QuantumRegister 3 ''x'') state_101 [[1, 2, -3], [-1, -2, -3], [-1, 2, 3]]"
    by (simp add: textbook_E'_def textbook_g_def textbook_literal_def lit_qubit_def r3 state_101_def)
  have o: "\<not> state_101 (Qubit ''out'' 0)" by (simp add: state_101_def)
  show ?thesis
    using apply_oracle_on_full_clauses[OF _ _ _ d _ n c, of "oracle_circuit 3" 3] e o
    by (simp add: r3 r1 r4)
qed

text \<open>
  Claim C1 (fails on the code): \<^verbatim>\<open>apply_oracle\<close> is supposed to flip \<^verbatim>\<open>f_out[0]\<close> exactly
  when \<open>E'\<close> is true, for every expression of 1 to 3 clauses of three signed literals over
  \<open>x\<^sub>0\<close>, \<open>x\<^sub>1\<close>, \<open>x\<^sub>2\<close>. For the one-clause expression \<open>[[1, 1, 2]]\<close> and the input
  \<open>x\<^sub>0 = 1, x\<^sub>1 = 1, x\<^sub>2 = 0\<close> (with \<^verbatim>\<open>f_out\<close> and \<^verbatim>\<open>aux\<close> at 0) it flips \<^verbatim>\<open>f_out[0]\<close>
  although \<open>E'\<close> is false there. All three literals of the clause are true on that input,
  so the step that the source announces as \<^emph>\<open>flip aux[k] if all literals are true\<close> ought
  to flip; but it takes the conjunction of \<^verbatim>\<open>f_in[0]\<close>, \<^verbatim>\<open>f_in[1]\<close>, \<^verbatim>\<open>f_in[2]\<close>, whatever
  the literals are. The same happens for \<open>[[1, 2, 4]]\<close> over four variables at
  \<open>x\<^sub>0 = 1, x\<^sub>1 = 1, x\<^sub>2 = 0, x\<^sub>3 = 1\<close>: the number of variables \<^verbatim>\<open>n\<close> is not used.
\<close>

theorem apply_oracle_conjunction_hardwired:
  "oracle_flips (oracle_circuit 1) (QuantumRegister 3 ''x'') (QuantumRegister 1 ''out'')
      (QuantumRegister 2 ''aux'') 3 [[1, 1, 2]] state_110 = Some True
   \<and> list_all (textbook_literal (QuantumRegister 3 ''x'') state_110) [1, 1, 2]
   \<and> textbook_E' (QuantumRegister 3 ''x'') state_110 [[1, 1, 2]] = False
   \<and> oracle_flips oracle_circuit_4 (QuantumRegister 4 ''x'') (QuantumRegister 1 ''out'')
      (QuantumRegister 2 ''aux'') 4 [[1, 2, 4]] state_1101 = Some True
   \<and> list_all (textbook_literal (QuantumRegister 4 ''x'') state_1101) [1, 2, 4]
   \<and> textbook_E' (QuantumRegister 4 ''x'') state_1101 [[1, 2, 4]] = False"
  by code_simp

end
